theory Spec2Isabelle
  imports
    Main
    "HOL-Library.Char_ord"
    "HOL-Library.List_Lexorder"
    "HOL-Library.Sublist"
    "HOL-Library.AList"
begin

section \<open>Byte strings and Go's strconv\<close>

text \<open>
  Go's \<open>[]byte\<close> and \<open>string\<close> are both sequences of bytes; a key or a value is a
  \<open>char list\<close> (a HOL \<open>char\<close> is one byte). A Go slice can also be \<open>nil\<close>; where the
  source returns \<open>nil\<close> the model returns \<open>None\<close>, and \<open>len\<close> of \<open>nil\<close> is 0.
\<close>

type_synonym bytes = "char list"

definition len :: "bytes option \<Rightarrow> nat" where
  "len s = (case s of None \<Rightarrow> 0 | Some bs \<Rightarrow> length bs)"

text \<open>Go's conversion \<open>string(value)\<close> of a byte slice: \<open>nil\<close> becomes the empty string.\<close>

definition string_of :: "bytes option \<Rightarrow> bytes" where
  "string_of s = (case s of None \<Rightarrow> [] | Some bs \<Rightarrow> bs)"

definition is_digit :: "char \<Rightarrow> bool" where
  "is_digit c = (48 \<le> (of_char c :: nat) \<and> (of_char c :: nat) \<le> 57)"

definition digit_val :: "char \<Rightarrow> nat" where
  "digit_val c = of_char c - 48"

text \<open>The digit table of \<open>strconv\<close>, indexed by a value below 10.\<close>

definition digit_char :: "nat \<Rightarrow> char" where
  "digit_char d = ''0123456789'' ! d"

text \<open>
  \<open>strconv.Itoa\<close>: the decimal digits of an integer, most significant first, with a
  leading \<open>-\<close> for a negative one and no padding.
\<close>

fun digits :: "nat \<Rightarrow> bytes" where
  "digits n = (if n < 10 then [digit_char n] else digits (n div 10) @ [digit_char (n mod 10)])"

declare digits.simps [simp del]

definition Itoa :: "int \<Rightarrow> bytes" where
  "Itoa i = (if i < 0 then CHR ''-'' # digits (nat (- i)) else digits (nat i))"

datatype error =
    errors_New string
  | ErrSyntax
  | ErrRange
  | ErrKeyRequired
  | ErrKeyTooLarge
  | ErrValueTooLarge

text \<open>
  \<open>strconv.ParseUint(s, 10, 64)\<close>: the loop over the bytes of \<open>s\<close>. A byte that is not a
  decimal digit is a syntax error with result 0; an overflow of 64 bits is a range error
  with result \<open>maxVal\<close>.
\<close>

definition maxVal :: nat where
  "maxVal = 2 ^ 64 - 1"

definition cutoff :: nat where
  "cutoff = maxVal div 10 + 1"

fun ParseUint_loop :: "nat \<Rightarrow> bytes \<Rightarrow> nat \<times> error option" where
  "ParseUint_loop n [] = (n, None)"
| "ParseUint_loop n (c # cs) =
     (if \<not> is_digit c then (0, Some ErrSyntax)
      else if n \<ge> cutoff then (maxVal, Some ErrRange)
      else let n1 = n * 10 + digit_val c
           in if n1 > maxVal then (maxVal, Some ErrRange)
              else ParseUint_loop n1 cs)"

definition ParseUint :: "bytes \<Rightarrow> nat \<times> error option" where
  "ParseUint s = (if s = [] then (0, Some ErrSyntax) else ParseUint_loop 0 s)"

text \<open>
  \<open>strconv.ParseInt(s, 10, 64)\<close>: an optional sign, then \<open>ParseUint\<close>. A syntax error
  gives 0; a range error gives the nearest 64-bit value.
\<close>

definition ParseInt :: "bytes \<Rightarrow> int \<times> error option" where
  "ParseInt s =
     (if s = [] then (0, Some ErrSyntax)
      else let neg = (hd s = CHR ''-'');
               s' = (if hd s = CHR ''+'' \<or> hd s = CHR ''-'' then tl s else s);
               (un, err) = ParseUint s'
           in if err \<noteq> None \<and> err \<noteq> Some ErrRange then (0, err)
              else if \<not> neg \<and> un \<ge> 2 ^ 63 then (2 ^ 63 - 1, Some ErrRange)
              else if neg \<and> un > 2 ^ 63 then (- (2 ^ 63), Some ErrRange)
              else (if neg then - int un else int un, None))"

text \<open>The value of a string of decimal digits, most significant first.\<close>

definition decimal :: "bytes \<Rightarrow> nat" where
  "decimal s = foldl (\<lambda>n c. n * 10 + digit_val c) 0 s"

section \<open>The TTL codec\<close>

text \<open>
  \<open>ParseCacheItem\<close>: an item shorter than 11 bytes gives \<open>(0, nil)\<close>; otherwise the
  first 10 bytes are parsed (the parse error is dropped) and the bytes from position 11
  on are the payload.
\<close>

definition ParseCacheItem :: "bytes \<Rightarrow> int \<times> bytes option" where
  "ParseCacheItem item =
     (if length item < 11 then (0, None)
      else let expire = fst (ParseInt (take 10 item))
           in (expire, Some (drop 11 item)))"

section \<open>The storage engine\<close>

text \<open>
  The store sits on bolt, an external B+tree engine. Its contract is modelled, not its
  pages: a bucket holds its pairs in ascending byte order of the keys, each key once
  (\<open>bucket_ok\<close>); \<open>Get\<close> returns \<open>nil\<close> for an absent key; \<open>Put\<close> is an upsert that
  rejects a blank or oversized key and an oversized value; \<open>Delete\<close> of an absent key
  does nothing; a cursor walks the pairs in key order. The handle is open and writable,
  and no bucket is nested in another.
\<close>

type_synonym bucket = "(bytes \<times> bytes) list"

definition bucket_ok :: "bucket \<Rightarrow> bool" where
  "bucket_ok b = sorted_wrt (<) (map fst b)"

definition bolt_Get :: "bucket \<Rightarrow> bytes \<Rightarrow> bytes option" where
  "bolt_Get b key = map_of b key"

definition MaxKeySize :: nat where
  "MaxKeySize = 32768"

definition MaxValueSize :: nat where
  "MaxValueSize = 2 ^ 31 - 2"

fun upsert :: "bytes \<Rightarrow> bytes \<Rightarrow> bucket \<Rightarrow> bucket" where
  "upsert key val [] = [(key, val)]"
| "upsert key val ((k, v) # rest) =
     (if key < k then (key, val) # (k, v) # rest
      else if key = k then (key, val) # rest
      else (k, v) # upsert key val rest)"

definition bolt_Put :: "bytes \<Rightarrow> bytes \<Rightarrow> bucket \<Rightarrow> error + bucket" where
  "bolt_Put key val b =
     (if length key = 0 then Inl ErrKeyRequired
      else if length key > MaxKeySize then Inl ErrKeyTooLarge
      else if length val > MaxValueSize then Inl ErrValueTooLarge
      else Inr (upsert key val b))"

definition bolt_Delete :: "bytes \<Rightarrow> bucket \<Rightarrow> bucket" where
  "bolt_Delete key b = filter (\<lambda>(k, v). k \<noteq> key) b"

text \<open>
  A cursor is the list of pairs from its position on: \<open>Cursor.Seek\<close> moves to the first
  key not below the sought one, \<open>Cursor.Next\<close> drops the head, and the empty list is the
  \<open>nil\<close> key at the end of the bucket.
\<close>

definition bolt_Seek :: "bucket \<Rightarrow> bytes \<Rightarrow> bucket" where
  "bolt_Seek b seek = dropWhile (\<lambda>(k, v). k < seek) b"

text \<open>\<open>Bucket.ForEach\<close>: every pair in key order, stopping at the first error of \<open>fn\<close>.\<close>

fun bolt_ForEach ::
  "(bytes \<Rightarrow> bytes \<Rightarrow> 's \<Rightarrow> error option \<times> 's) \<Rightarrow> bucket \<Rightarrow> 's \<Rightarrow> error option \<times> 's" where
  "bolt_ForEach fn [] s = (None, s)"
| "bolt_ForEach fn ((k, v) # rest) s =
     (case fn k v s of
        (Some e, s') \<Rightarrow> (Some e, s')
      | (None, s') \<Rightarrow> bolt_ForEach fn rest s')"

section \<open>The database handle\<close>

text \<open>
  The state of a \<open>BoltDatabase\<close>: its buckets by name, and the write transactions it has
  committed, each with the operations it applied. A rolled-back transaction leaves no
  trace.
\<close>

datatype op = OpPut bytes bytes bytes | OpDelete bytes bytes

fun op_bucket :: "op \<Rightarrow> bytes" where
  "op_bucket (OpPut bucket key val) = bucket"
| "op_bucket (OpDelete bucket key) = bucket"

record database =
  buckets :: "(bytes \<times> bucket) list"
  txlog :: "op list list"

text \<open>
  \<open>tx.Bucket(name)\<close> is \<open>nil\<close> for a bucket that does not exist, and a method called
  on it panics.
\<close>

datatype panic = NilPointerDereference

definition tx_Bucket :: "database \<Rightarrow> bytes \<Rightarrow> bucket option" where
  "tx_Bucket d bucket = map_of (buckets d) bucket"

text \<open>The commit of a write transaction on one bucket.\<close>

definition commit :: "database \<Rightarrow> bytes \<Rightarrow> bucket \<Rightarrow> op list \<Rightarrow> database" where
  "commit d bucket b ops =
     d\<lparr>buckets := AList.update bucket b (buckets d), txlog := txlog d @ [ops]\<rparr>"

definition BucketExists :: "database \<Rightarrow> bytes \<Rightarrow> bool" where
  "BucketExists d bucket = (tx_Bucket d bucket \<noteq> None)"

section \<open>Bucket operations\<close>

text \<open>
  A Go function that returns \<open>(value, err)\<close> returns that pair here; one that writes
  returns the new state as well; a panic is \<open>Inl\<close>.
\<close>

definition Delete :: "database \<Rightarrow> bytes \<Rightarrow> bytes \<Rightarrow> panic + (error option \<times> database)" where
  "Delete d bucket key =
     (case tx_Bucket d bucket of
        None \<Rightarrow> Inl NilPointerDereference
      | Some b \<Rightarrow> Inr (None, commit d bucket (bolt_Delete key b) [OpDelete bucket key]))"

fun BatchDelete_loop :: "bucket option \<Rightarrow> bytes list \<Rightarrow> panic + bucket option" where
  "BatchDelete_loop b [] = Inr b"
| "BatchDelete_loop b (key # keys) =
     (case b of
        None \<Rightarrow> Inl NilPointerDereference
      | Some bk \<Rightarrow> BatchDelete_loop (Some (bolt_Delete key bk)) keys)"

definition BatchDelete ::
  "database \<Rightarrow> bytes \<Rightarrow> bytes list \<Rightarrow> panic + (error option \<times> database)" where
  "BatchDelete d bucket keys =
     (case BatchDelete_loop (tx_Bucket d bucket) keys of
        Inl p \<Rightarrow> Inl p
      | Inr None \<Rightarrow> Inr (None, d\<lparr>txlog := txlog d @ [map (OpDelete bucket) keys]\<rparr>)
      | Inr (Some b) \<Rightarrow> Inr (None, commit d bucket b (map (OpDelete bucket) keys)))"

definition Has :: "database \<Rightarrow> bytes \<Rightarrow> bytes \<Rightarrow> panic + bool" where
  "Has d bucket key =
     (case tx_Bucket d bucket of
        None \<Rightarrow> Inl NilPointerDereference
      | Some b \<Rightarrow> Inr (len (bolt_Get b key) > 0))"

definition GetBytes ::
  "database \<Rightarrow> bytes \<Rightarrow> bytes \<Rightarrow> panic + (bytes option \<times> error option)" where
  "GetBytes d bucket key =
     (case tx_Bucket d bucket of
        None \<Rightarrow> Inl NilPointerDereference
      | Some b \<Rightarrow> Inr (bolt_Get b key, None))"

definition Get :: "database \<Rightarrow> bytes \<Rightarrow> bytes \<Rightarrow> panic + (bytes \<times> error option)" where
  "Get d bucket key =
     (case GetBytes d bucket key of
        Inl p \<Rightarrow> Inl p
      | Inr (val, err) \<Rightarrow> Inr (string_of val, err))"

text \<open>
  \<open>GetCachedBytes\<close> reads the clock through \<open>util.NowInt64\<close>; the model takes its
  reading \<open>now\<close> (Unix seconds) as an argument. The result of the inner \<open>Delete\<close> is
  dropped, as in the source.
\<close>

definition GetCachedBytes ::
  "int \<Rightarrow> database \<Rightarrow> bytes \<Rightarrow> bytes \<Rightarrow>
     panic + ((bytes option \<times> error option) \<times> database)" where
  "GetCachedBytes now d bucket key =
     (case tx_Bucket d bucket of
        None \<Rightarrow> Inl NilPointerDereference
      | Some b \<Rightarrow>
          let val = bolt_Get b key
          in if len val = 0 then Inr ((None, None), d)
             else let (expire, v) = ParseCacheItem (string_of val)
                  in if expire > 0 \<and> expire < now then
                       (case Delete d bucket key of
                          Inl p \<Rightarrow> Inl p
                        | Inr (_, d') \<Rightarrow> Inr ((None, Some (errors_New ''Key Expired'')), d'))
                     else if expire = 0 then
                       (case Delete d bucket key of
                          Inl p \<Rightarrow> Inl p
                        | Inr (_, d') \<Rightarrow> Inr ((None, Some (errors_New ''Invalid Key'')), d'))
                     else Inr ((v, None), d))"

definition GetCached ::
  "int \<Rightarrow> database \<Rightarrow> bytes \<Rightarrow> bytes \<Rightarrow> panic + ((bytes \<times> error option) \<times> database)" where
  "GetCached now d bucket key =
     (case GetCachedBytes now d bucket key of
        Inl p \<Rightarrow> Inl p
      | Inr ((val, err), d') \<Rightarrow> Inr ((string_of val, err), d'))"

text \<open>
  Modelled from the spec: \<open>util.NowPlusSecondsInt\<close> is not among the sources; the spec
  gives the expiry as \<open>now() + ttlSeconds\<close>, with \<open>now\<close> the clock reading in Unix seconds.
\<close>

definition NowPlusSecondsInt :: "int \<Rightarrow> int \<Rightarrow> int" where
  "NowPlusSecondsInt now seconds = now + seconds"

definition SetCachedBytes ::
  "int \<Rightarrow> database \<Rightarrow> bytes \<Rightarrow> int \<Rightarrow> bytes \<Rightarrow> bytes \<Rightarrow>
     panic + (error option \<times> database)" where
  "SetCachedBytes now d bucket seconds key val =
     (let val' = Itoa (NowPlusSecondsInt now seconds) @ ''|'' @ val
      in case tx_Bucket d bucket of
           None \<Rightarrow> Inl NilPointerDereference
         | Some b \<Rightarrow>
             (case bolt_Put key val' b of
                Inl e \<Rightarrow> Inr (Some e, d)
              | Inr b' \<Rightarrow> Inr (None, commit d bucket b' [OpPut bucket key val'])))"

definition SetCached ::
  "int \<Rightarrow> database \<Rightarrow> bytes \<Rightarrow> int \<Rightarrow> bytes \<Rightarrow> bytes \<Rightarrow>
     panic + (error option \<times> database)" where
  "SetCached now d bucket seconds key val = SetCachedBytes now d bucket seconds key val"

section \<open>Callback operations\<close>

text \<open>
  A callback acts on the caller's own state \<open>'s\<close>. \<open>Seek\<close> walks a cursor from the
  prefix while the key has the prefix.
\<close>

fun Seek_loop :: "bytes \<Rightarrow> (bytes \<Rightarrow> bytes \<Rightarrow> 's \<Rightarrow> 's) \<Rightarrow> bucket \<Rightarrow> 's \<Rightarrow> 's" where
  "Seek_loop bytePrefix callback [] s = s"
| "Seek_loop bytePrefix callback ((k, v) # c) s =
     (if prefix bytePrefix k then Seek_loop bytePrefix callback c (callback k v s) else s)"

definition Seek ::
  "database \<Rightarrow> bytes \<Rightarrow> bytes \<Rightarrow> (bytes \<Rightarrow> bytes \<Rightarrow> 's \<Rightarrow> 's) \<Rightarrow> 's \<Rightarrow>
     panic + (error option \<times> 's)" where
  "Seek d bucket prefix' callback s =
     (case tx_Bucket d bucket of
        None \<Rightarrow> Inl NilPointerDereference
      | Some b \<Rightarrow> Inr (None, Seek_loop prefix' callback (bolt_Seek b prefix') s))"

definition ForEach ::
  "database \<Rightarrow> bytes \<Rightarrow> (bytes \<Rightarrow> bytes \<Rightarrow> 's \<Rightarrow> error option \<times> 's) \<Rightarrow> 's \<Rightarrow>
     panic + (error option \<times> 's)" where
  "ForEach d bucket callback s =
     (case tx_Bucket d bucket of
        None \<Rightarrow> Inl NilPointerDereference
      | Some b \<Rightarrow> Inr (None, snd (bolt_ForEach callback b s)))"

section \<open>The cache sweep\<close>

text \<open>
  \<open>CacheCleanup\<close> reads the clock once, then visits the buckets of \<open>CacheBuckets\<close> (a
  package variable, here an argument). The callback given to \<open>ForEach\<close> appends to
  \<open>toRemove\<close>.
\<close>

definition CacheCleanup_callback ::
  "int \<Rightarrow> bytes \<Rightarrow> bytes \<Rightarrow> bytes list \<Rightarrow> error option \<times> bytes list" where
  "CacheCleanup_callback now key val toRemove =
     (let expire = fst (ParseCacheItem val)
      in if (expire > 0 \<and> expire < now) \<or> expire = 0
         then (None, toRemove @ [key]) else (None, toRemove))"

definition CacheCleanup_bucket :: "int \<Rightarrow> bytes \<Rightarrow> database \<Rightarrow> panic + database" where
  "CacheCleanup_bucket now bucket d =
     (if \<not> BucketExists d bucket then Inr d
      else case ForEach d bucket (CacheCleanup_callback now) [] of
             Inl p \<Rightarrow> Inl p
           | Inr (_, toRemove) \<Rightarrow>
               if length toRemove > 0 then
                 (case BatchDelete d bucket toRemove of
                    Inl p \<Rightarrow> Inl p
                  | Inr (_, d') \<Rightarrow> Inr d')
               else Inr d)"

fun CacheCleanup :: "int \<Rightarrow> bytes list \<Rightarrow> database \<Rightarrow> panic + database" where
  "CacheCleanup now [] d = Inr d"
| "CacheCleanup now (bucket # CacheBuckets) d =
     (case CacheCleanup_bucket now bucket d of
        Inl p \<Rightarrow> Inl p
      | Inr d' \<Rightarrow> CacheCleanup now CacheBuckets d')"

text \<open>The test that the callback of \<open>CacheCleanup\<close> makes on a stored value.\<close>

abbreviation invalidated :: "int \<Rightarrow> bytes \<Rightarrow> bool" where
  "invalidated now val \<equiv>
     (fst (ParseCacheItem val) > 0 \<and> fst (ParseCacheItem val) < now) \<or>
     fst (ParseCacheItem val) = 0"

section \<open>Example states\<close>

text \<open>
  A database with one cache bucket, read at the clock reading 1700000000: a record that
  expires later, one that expires at that very second, one that expired before, one
  with a negative expiry, one with the zero expiry, one too short to decode and one with
  an empty value.
\<close>

definition cache_bucket :: bucket where
  "cache_bucket =
     [(''empty'', []),
      (''fresh'', ''1800000000|new''),
      (''minus'', ''-700000000|neg''),
      (''now'', ''1700000000|abc''),
      (''old'', ''1600000000|abc''),
      (''short'', ''12345''),
      (''zero'', ''0000000000|x'')]"

definition cache_example :: database where
  "cache_example = \<lparr>buckets = [(''cache'', cache_bucket)], txlog = []\<rparr>"

text \<open>
  A database for the sweep at the clock reading 1700000000: a cache bucket with no
  negative expiry, and a bucket that is not a cache bucket.
\<close>

definition sweep_bucket :: bucket where
  "sweep_bucket =
     [(''empty'', []),
      (''fresh'', ''1800000000|new''),
      (''now'', ''1700000000|abc''),
      (''old'', ''1600000000|abc''),
      (''short'', ''12345''),
      (''zero'', ''0000000000|x'')]"

definition sweep_example :: database where
  "sweep_example =
     \<lparr>buckets = [(''cache'', sweep_bucket), (''history'', [(''h'', ''x'')])], txlog = []\<rparr>"

text \<open>A database whose cache bucket is empty.\<close>

definition empty_cache :: database where
  "empty_cache = \<lparr>buckets = [(''cache'', [])], txlog = []\<rparr>"

text \<open>The bucket of the scenario for \<open>Seek\<close>.\<close>

definition users_bucket :: bucket where
  "users_bucket = [(''admin.1'', ''c''), (''user.1'', ''a''), (''user.2'', ''b'')]"

definition users_example :: database where
  "users_example = \<lparr>buckets = [(''b'', users_bucket)], txlog = []\<rparr>"

section \<open>Decimal strings\<close>

lemma lt10_cases: "d < 10 \<Longrightarrow> d = 0 \<or> d = 1 \<or> d = 2 \<or> d = 3 \<or> d = 4 \<or> d = 5 \<or> d = 6 \<or> d = 7 \<or> d = 8 \<or> d = (9::nat)"
  by arith

lemma is_digit_digit_char: "d < 10 \<Longrightarrow> is_digit (digit_char d)"
  by (drule lt10_cases) (auto simp: is_digit_def digit_char_def)

lemma digit_val_digit_char: "d < 10 \<Longrightarrow> digit_val (digit_char d) = d"
  by (drule lt10_cases) (auto simp: digit_val_def digit_char_def)

lemma digit_val_le: "is_digit c \<Longrightarrow> digit_val c \<le> 9"
  unfolding is_digit_def digit_val_def by linarith

lemma ParseUint_loop_append:
  "ParseUint_loop n (xs @ ys) =
     (case ParseUint_loop n xs of (m, None) \<Rightarrow> ParseUint_loop m ys | r \<Rightarrow> r)"
  by (induction xs arbitrary: n) (auto simp: Let_def)

lemma ParseUint_loop_digits:
  "n \<le> maxVal \<Longrightarrow> ParseUint_loop 0 (digits n) = (n, None)"
proof (induction n rule: digits.induct)
  case (1 n)
  show ?case
  proof (cases "n < 10")
    case True
    then show ?thesis
      by (subst digits.simps) (simp add: is_digit_digit_char digit_val_digit_char cutoff_def maxVal_def)
  next
    case False
    have le: "n div 10 \<le> maxVal" using "1.prems" by simp
    have lt: "n div 10 < cutoff" using "1.prems" by (simp add: cutoff_def)
    have ih: "ParseUint_loop 0 (digits (n div 10)) = (n div 10, None)"
      using "1.IH" [OF False le] .
    show ?thesis
      using False lt "1.prems"
      by (subst digits.simps)
         (simp add: ParseUint_loop_append ih is_digit_digit_char digit_val_digit_char)
  qed
qed

lemma length_digits:
  "0 < k \<Longrightarrow> n < 10 ^ k \<Longrightarrow> 10 ^ (k - 1) \<le> n \<Longrightarrow> length (digits n) = k"
proof (induction n arbitrary: k rule: digits.induct)
  case (1 n)
  show ?case
  proof (cases "n < 10")
    case True
    have "k = 1"
    proof (rule ccontr)
      assume "k \<noteq> 1"
      with "1.prems"(1) have "2 \<le> k" by simp
      then have "(10::nat) ^ 1 \<le> 10 ^ (k - 1)"
        by (intro power_increasing) auto
      with "1.prems"(3) True show False by simp
    qed
    with True show ?thesis by (subst digits.simps) simp
  next
    case False
    have k2: "2 \<le> k"
    proof (rule ccontr)
      assume "\<not> 2 \<le> k"
      with "1.prems"(1) have "k = 1" by simp
      with "1.prems"(2) False show False by simp
    qed
    then obtain j where j: "k = Suc j" "0 < j"
      by (cases k) auto
    have a: "n div 10 < 10 ^ j"
      using "1.prems"(2) j by (simp add: less_mult_imp_div_less)
    obtain i where i: "j = Suc i" using j by (cases j) auto
    have b: "10 ^ (j - 1) \<le> n div 10"
      using "1.prems"(3) j i by simp
    have "length (digits (n div 10)) = j"
      using "1.IH" [OF False j(2) a b] .
    with False j show ?thesis by (subst digits.simps) simp
  qed
qed

lemma digits_all_digit: "list_all is_digit (digits n)"
proof (induction n rule: digits.induct)
  case (1 n)
  then show ?case
    by (subst digits.simps) (simp add: is_digit_digit_char)
qed

lemma pow_step: "n < 10 ^ k \<Longrightarrow> d \<le> 9 \<Longrightarrow> n * 10 + d < 10 ^ Suc k" for n d :: nat
  by simp

lemma ParseUint_loop_decimal:
  "list_all is_digit s \<Longrightarrow> n < 10 ^ k \<Longrightarrow> k + length s \<le> 19 \<Longrightarrow>
   ParseUint_loop n s = (foldl (\<lambda>n c. n * 10 + digit_val c) n s, None)
   \<and> foldl (\<lambda>n c. n * 10 + digit_val c) n s < 10 ^ (k + length s)"
proof (induction s arbitrary: n k)
  case Nil
  then show ?case by simp
next
  case (Cons c cs)
  have c: "is_digit c" and cs: "list_all is_digit cs" using Cons.prems(1) by simp_all
  have k18: "k \<le> 18" using Cons.prems(3) by simp
  have "(10::nat) ^ k \<le> 10 ^ 18" using k18 by (intro power_increasing) auto
  then have n18: "n < 10 ^ 18" using Cons.prems(2) by simp
  have nc: "n < cutoff" using n18 by (simp add: cutoff_def maxVal_def)
  have n1: "n * 10 + digit_val c < 10 ^ Suc k"
    using Cons.prems(2) digit_val_le [OF c] by (rule pow_step)
  have "(10::nat) ^ Suc k \<le> 10 ^ 19" using k18 by (intro power_increasing) auto
  then have n1m: "n * 10 + digit_val c \<le> maxVal" using n1 by (simp add: maxVal_def)
  have len: "Suc k + length cs \<le> 19" using Cons.prems(3) by simp
  from Cons.IH [OF cs n1 len] c nc n1m show ?case by (simp add: Let_def)
qed

lemma ParseUint_loop_short:
  "n < 10 ^ k \<Longrightarrow> k + length s \<le> 19 \<Longrightarrow>
   (ParseUint_loop n s = (0, Some ErrSyntax)) \<or>
   (\<exists>m. ParseUint_loop n s = (m, None) \<and> m < 10 ^ (k + length s))"
proof (induction s arbitrary: n k)
  case Nil
  then show ?case by simp
next
  case (Cons c cs)
  show ?case
  proof (cases "is_digit c")
    case False
    then show ?thesis by simp
  next
    case c: True
    have k18: "k \<le> 18" using Cons.prems(2) by simp
    have "(10::nat) ^ k \<le> 10 ^ 18" using k18 by (intro power_increasing) auto
    then have n18: "n < 10 ^ 18" using Cons.prems(1) by simp
    have nc: "n < cutoff" using n18 by (simp add: cutoff_def maxVal_def)
    have n1: "n * 10 + digit_val c < 10 ^ Suc k"
      using Cons.prems(1) digit_val_le [OF c] by (rule pow_step)
    have "(10::nat) ^ Suc k \<le> 10 ^ 19" using k18 by (intro power_increasing) auto
    then have n1m: "n * 10 + digit_val c \<le> maxVal" using n1 by (simp add: maxVal_def)
    have len: "Suc k + length cs \<le> 19" using Cons.prems(2) by simp
    from Cons.IH [OF n1 len] c nc n1m show ?thesis by (simp add: Let_def)
  qed
qed

lemmas codec_eval =
  ParseCacheItem_def ParseInt_def ParseUint_def is_digit_def digit_val_def maxVal_def
  cutoff_def decimal_def

lemma ParseUint_short:
  "length s \<le> 18 \<Longrightarrow>
   ParseUint s = (0, Some ErrSyntax) \<or> (\<exists>m. ParseUint s = (m, None) \<and> m < 10 ^ 18)"
proof (cases "s = []")
  case True
  then show ?thesis by (simp add: ParseUint_def)
next
  case False
  assume len: "length s \<le> 18"
  have "(0::nat) < 10 ^ 0" by simp
  moreover have "0 + length s \<le> 19" using len by simp
  ultimately have "ParseUint_loop 0 s = (0, Some ErrSyntax) \<or>
      (\<exists>m. ParseUint_loop 0 s = (m, None) \<and> m < 10 ^ (0 + length s))"
    by (rule ParseUint_loop_short)
  moreover have "(10::nat) ^ length s \<le> 10 ^ 18"
    using len by (intro power_increasing) auto
  ultimately show ?thesis using False by (auto simp: ParseUint_def)
qed

lemma ParseInt_short:
  assumes "length s \<le> 18"
  shows "ParseInt s = (0, Some ErrSyntax) \<or> (\<exists>i. ParseInt s = (i, None))"
proof (cases "s = []")
  case True
  then show ?thesis by (simp add: ParseInt_def)
next
  case False
  define s' where "s' = (if hd s = CHR ''+'' \<or> hd s = CHR ''-'' then tl s else s)"
  have "length s' \<le> 18" using assms by (auto simp: s'_def)
  then have "ParseUint s' = (0, Some ErrSyntax) \<or> (\<exists>m. ParseUint s' = (m, None) \<and> m < 10 ^ 18)"
    by (rule ParseUint_short)
  then show ?thesis
  proof
    assume "ParseUint s' = (0, Some ErrSyntax)"
    then show ?thesis using False by (simp add: ParseInt_def s'_def)
  next
    assume "\<exists>m. ParseUint s' = (m, None) \<and> m < 10 ^ 18"
    then obtain m where m: "ParseUint s' = (m, None)" "m < 10 ^ 18" by blast
    have "m < 2 ^ 63" using m(2) by simp
    then show ?thesis using False m(1) by (simp add: ParseInt_def s'_def)
  qed
qed

lemma ParseInt_failure_zero:
  "length s \<le> 18 \<Longrightarrow> snd (ParseInt s) \<noteq> None \<Longrightarrow> fst (ParseInt s) = 0"
  using ParseInt_short [of s] by auto

lemma is_digit_not_sign: "is_digit c \<Longrightarrow> c \<noteq> CHR ''+'' \<and> c \<noteq> CHR ''-''"
  by (auto simp: is_digit_def)

lemma ParseInt_decimal:
  assumes "list_all is_digit s" "s \<noteq> []" "length s \<le> 18"
  shows "ParseInt s = (int (decimal s), None)"
proof -
  have "(0::nat) < 10 ^ 0" by simp
  moreover have "0 + length s \<le> 19" using assms(3) by simp
  ultimately have loop: "ParseUint_loop 0 s = (decimal s, None)"
    and "decimal s < 10 ^ (0 + length s)"
    using ParseUint_loop_decimal [OF assms(1), of 0 0] by (simp_all add: decimal_def)
  moreover have "(10::nat) ^ length s \<le> 10 ^ 18"
    using assms(3) by (intro power_increasing) auto
  ultimately have small: "decimal s < 2 ^ 63" by simp
  have "is_digit (hd s)" using assms(1,2) by (cases s) simp_all
  then have "hd s \<noteq> CHR ''+''" "hd s \<noteq> CHR ''-''"
    using is_digit_not_sign by blast+
  then show ?thesis
    using assms(2) loop small by (simp add: ParseInt_def ParseUint_def)
qed

lemma digits_not_Nil: "digits n \<noteq> []"
  by (subst digits.simps) simp

lemma ParseInt_Itoa:
  assumes "0 \<le> i" "i < 10 ^ 18"
  shows "ParseInt (Itoa i) = (i, None)"
proof -
  have n: "nat i < 10 ^ 18" using assms by (simp add: nat_less_iff)
  then have "nat i \<le> maxVal" by (simp add: maxVal_def)
  then have loop: "ParseUint_loop 0 (digits (nat i)) = (nat i, None)"
    by (rule ParseUint_loop_digits)
  have "is_digit (hd (digits (nat i)))"
    using digits_all_digit [of "nat i"] digits_not_Nil [of "nat i"]
    by (cases "digits (nat i)") simp_all
  then have "hd (digits (nat i)) \<noteq> CHR ''+''" "hd (digits (nat i)) \<noteq> CHR ''-''"
    using is_digit_not_sign by blast+
  moreover have "nat i < 2 ^ 63" using n by simp
  ultimately show ?thesis
    using assms(1) loop digits_not_Nil [of "nat i"]
    by (simp add: ParseInt_def ParseUint_def Itoa_def)
qed

section \<open>Decoding a cached item\<close>

text \<open>
  Claim C6. \<open>ParseCacheItem\<close> is total and has no error result. An item shorter than 11
  bytes decodes to expiry 0 and a \<open>nil\<close> payload. An item of at least 11 bytes decodes
  to what \<open>ParseInt\<close> makes of its first 10 bytes, which is their decimal value when they
  are all digits and 0 when the parse fails, and to the bytes from position 11 on.
\<close>

theorem ParseCacheItem_decodes:
  "(length item < 11 \<longrightarrow> ParseCacheItem item = (0, None)) \<and>
   (11 \<le> length item \<longrightarrow>
      ParseCacheItem item = (fst (ParseInt (take 10 item)), Some (drop 11 item)) \<and>
      (list_all is_digit (take 10 item) \<longrightarrow>
         fst (ParseCacheItem item) = int (decimal (take 10 item))) \<and>
      (snd (ParseInt (take 10 item)) \<noteq> None \<longrightarrow> fst (ParseCacheItem item) = 0))"
proof (intro conjI impI)
  assume "length item < 11"
  then show "ParseCacheItem item = (0, None)" by (simp add: ParseCacheItem_def)
next
  assume "11 \<le> length item"
  then show "ParseCacheItem item = (fst (ParseInt (take 10 item)), Some (drop 11 item))"
    by (simp add: ParseCacheItem_def)
next
  assume len: "11 \<le> length item" and dig: "list_all is_digit (take 10 item)"
  have "take 10 item \<noteq> []" using len by auto
  moreover have "length (take 10 item) \<le> 18" by simp
  ultimately have "ParseInt (take 10 item) = (int (decimal (take 10 item)), None)"
    using dig by (intro ParseInt_decimal)
  then show "fst (ParseCacheItem item) = int (decimal (take 10 item))"
    using len by (simp add: ParseCacheItem_def)
next
  assume len: "11 \<le> length item" and err: "snd (ParseInt (take 10 item)) \<noteq> None"
  have "length (take 10 item) \<le> 18" by simp
  then have "fst (ParseInt (take 10 item)) = 0"
    using err by (rule ParseInt_failure_zero)
  then show "fst (ParseCacheItem item) = 0"
    using len by (simp add: ParseCacheItem_def)
qed

theorem ParseCacheItem_decodes_witness:
  "ParseCacheItem ''short'' = (0, None) \<and>
   ParseCacheItem ''1700000000|abc'' = (1700000000, Some ''abc'') \<and>
   ParseCacheItem ''17000x0000|abc'' = (0, Some ''abc'')"
  using ParseCacheItem_decodes [of "''short''"]
    ParseCacheItem_decodes [of "''1700000000|abc''"]
    ParseCacheItem_decodes [of "''17000x0000|abc''"]
  by (simp add: codec_eval)

text \<open>
  Claim C10. The byte at position 10 is never read: whatever byte is put there, an item
  of at least 11 bytes decodes to the integer parsed from its first 10 bytes and the
  bytes from position 11 on, the same as the item it was made from.
\<close>

theorem ParseCacheItem_ignores_separator:
  "11 \<le> length item \<Longrightarrow>
   ParseCacheItem (item[10 := c]) = (fst (ParseInt (take 10 item)), Some (drop 11 item)) \<and>
   ParseCacheItem (item[10 := c]) = ParseCacheItem item"
  by (simp add: ParseCacheItem_def)

theorem ParseCacheItem_ignores_separator_witness:
  "ParseCacheItem (''1700000000|abc''[10 := CHR ''x'']) = (1700000000, Some ''abc'') \<and>
   ParseCacheItem (''1700000000|abc''[10 := CHR ''x'']) = ParseCacheItem ''1700000000|abc''"
  using ParseCacheItem_ignores_separator [of "''1700000000|abc''" "CHR ''x''"]
  by (simp add: codec_eval)

section \<open>The engine's bucket\<close>

lemma map_of_upsert: "map_of (upsert key val b) = (map_of b)(key \<mapsto> val)"
  by (induction b) (auto simp: fun_eq_iff)

lemma upsert_keys: "fst ` set (upsert key val b) = insert key (fst ` set b)"
proof -
  have "fst ` set (upsert key val b) = dom (map_of (upsert key val b))"
    by (simp add: dom_map_of_conv_image_fst)
  also have "\<dots> = insert key (dom (map_of b))"
    by (simp add: map_of_upsert)
  finally show ?thesis by (simp add: dom_map_of_conv_image_fst)
qed

lemma bucket_ok_upsert: "bucket_ok b \<Longrightarrow> bucket_ok (upsert key val b)"
  unfolding bucket_ok_def
proof (induction b)
  case Nil
  then show ?case by simp
next
  case (Cons p b)
  obtain k v where p: "p = (k, v)" by (cases p)
  have *: "\<forall>k' \<in> fst ` set (upsert key val b). k < k'" if "k < key"
    using Cons.prems that by (simp add: upsert_keys p)
  show ?case using Cons * by (auto simp: p)
qed

lemma map_of_bolt_Delete:
  "map_of (bolt_Delete key b) k = (if k = key then None else map_of b k)"
  by (induction b) (auto simp: bolt_Delete_def)

lemma bucket_ok_bolt_Delete: "bucket_ok b \<Longrightarrow> bucket_ok (bolt_Delete key b)"
  by (simp add: bucket_ok_def bolt_Delete_def sorted_wrt_map sorted_wrt_filter)

lemma tx_Bucket_commit:
  "tx_Bucket (commit d bucket b ops) n = (if n = bucket then Some b else tx_Bucket d n)"
  by (simp add: tx_Bucket_def commit_def update_conv')

lemma bolt_Get_Delete: "bolt_Get (bolt_Delete key b) key = None"
  by (simp add: bolt_Get_def map_of_bolt_Delete)

lemmas store_eval =
  tx_Bucket_def bolt_Get_def bolt_Delete_def bolt_Put_def commit_def len_def string_of_def
  MaxKeySize_def MaxValueSize_def

lemmas example_defs =
  cache_example_def cache_bucket_def empty_cache_def users_example_def users_bucket_def
  sweep_example_def sweep_bucket_def

section \<open>Point lookups\<close>

text \<open>
  Claim C9. On an existing bucket, \<open>Has\<close> returns true exactly when a value of non-zero
  length is stored under the key: false for an absent key and for an empty value. It
  takes no clock reading, and it is true for an expired cached record that is still
  stored.
\<close>

theorem Has_nonempty_value:
  assumes "tx_Bucket d bucket = Some b"
  shows "Has d bucket key = Inr (case bolt_Get b key of None \<Rightarrow> False | Some v \<Rightarrow> v \<noteq> []) \<and>
         (\<forall>v now. bolt_Get b key = Some v \<and> 0 < fst (ParseCacheItem v) \<and>
             fst (ParseCacheItem v) < now \<longrightarrow> Has d bucket key = Inr True)"
proof (intro conjI allI impI)
  show "Has d bucket key = Inr (case bolt_Get b key of None \<Rightarrow> False | Some v \<Rightarrow> v \<noteq> [])"
    using assms by (simp add: Has_def len_def split: option.splits)
next
  fix v now
  assume a: "bolt_Get b key = Some v \<and> 0 < fst (ParseCacheItem v) \<and> fst (ParseCacheItem v) < now"
  then have "v \<noteq> []" by (auto simp: ParseCacheItem_def)
  then show "Has d bucket key = Inr True"
    using assms a by (simp add: Has_def len_def)
qed

theorem Has_nonempty_value_witness:
  "Has cache_example ''cache'' ''old'' = Inr True \<and>
   fst (ParseCacheItem ''1600000000|abc'') < 1700000000 \<and>
   Has cache_example ''cache'' ''empty'' = Inr False \<and>
   Has cache_example ''cache'' ''absent'' = Inr False"
  using Has_nonempty_value [of cache_example "''cache''" cache_bucket "''old''"]
    Has_nonempty_value [of cache_example "''cache''" cache_bucket "''empty''"]
    Has_nonempty_value [of cache_example "''cache''" cache_bucket "''absent''"]
  by (simp add: example_defs store_eval codec_eval)

section \<open>Reading a cached record\<close>

lemma Delete_Some:
  "tx_Bucket d bucket = Some b \<Longrightarrow>
   Delete d bucket key = Inr (None, commit d bucket (bolt_Delete key b) [OpDelete bucket key])"
  by (simp add: Delete_def)

lemma Has_after_Delete:
  "Has (commit d bucket (bolt_Delete key b) ops) bucket key = Inr False"
  by (simp add: Has_def tx_Bucket_commit bolt_Get_Delete len_def)

lemma GetCachedBytes_decoded:
  assumes "tx_Bucket d bucket = Some b" and "bolt_Get b key = Some item" and "item \<noteq> []"
    and "ParseCacheItem item = (expire, v)"
    and "d' = commit d bucket (bolt_Delete key b) [OpDelete bucket key]"
  shows "(expire = 0 \<longrightarrow>
            GetCachedBytes now d bucket key = Inr ((None, Some (errors_New ''Invalid Key'')), d')) \<and>
         (0 < expire \<and> expire < now \<longrightarrow>
            GetCachedBytes now d bucket key = Inr ((None, Some (errors_New ''Key Expired'')), d')) \<and>
         (expire < 0 \<or> now \<le> expire \<and> expire \<noteq> 0 \<longrightarrow>
            GetCachedBytes now d bucket key = Inr ((v, None), d)) \<and>
         Has d' bucket key = Inr False \<and> GetBytes d' bucket key = Inr (None, None)"
proof -
  have nonempty: "len (Some item) \<noteq> 0" using assms(3) by (simp add: len_def)
  have del: "Delete d bucket key = Inr (None, d')"
    using assms(1,5) by (simp add: Delete_Some)
  have 1: "expire = 0 \<longrightarrow>
      GetCachedBytes now d bucket key = Inr ((None, Some (errors_New ''Invalid Key'')), d')"
    using assms(1,2,4) nonempty del by (simp add: GetCachedBytes_def string_of_def)
  have 2: "0 < expire \<and> expire < now \<longrightarrow>
      GetCachedBytes now d bucket key = Inr ((None, Some (errors_New ''Key Expired'')), d')"
    using assms(1,2,4) nonempty del by (simp add: GetCachedBytes_def string_of_def)
  have 3: "expire < 0 \<or> now \<le> expire \<and> expire \<noteq> 0 \<longrightarrow>
      GetCachedBytes now d bucket key = Inr ((v, None), d)"
    using assms(1,2,4) nonempty by (auto simp: GetCachedBytes_def string_of_def)
  have 4: "Has d' bucket key = Inr False"
    unfolding assms(5) by (rule Has_after_Delete)
  have 5: "GetBytes d' bucket key = Inr (None, None)"
    unfolding assms(5) by (simp add: GetBytes_def tx_Bucket_commit bolt_Get_Delete)
  from 1 2 3 4 5 show ?thesis by blast
qed

text \<open>
  Claim C1, amended. For a stored value that decodes to \<open>(expire, v)\<close>, \<open>GetCachedBytes\<close>
  and \<open>GetCached\<close> behave alike, \<open>GetCached\<close> giving the payload as a string. A value of
  zero length is not decoded: nothing is deleted and no error is reported. For a value of
  non-zero length, the key is deleted and \<open>Invalid Key\<close> reported when \<open>expire = 0\<close>; the
  key is deleted and \<open>Key Expired\<close> reported when \<open>0 < expire < now\<close>; and in every other
  case (\<open>expire \<ge> now\<close>, or a negative \<open>expire\<close>) the payload is returned with no error
  and the state is left as it was. After a deletion the key is absent.
\<close>

theorem GetCachedBytes_trichotomy:
  assumes "tx_Bucket d bucket = Some b" and "bolt_Get b key = Some item"
    and "ParseCacheItem item = (expire, v)"
    and "d' = commit d bucket (bolt_Delete key b) [OpDelete bucket key]"
  shows "(item = [] \<longrightarrow>
            GetCachedBytes now d bucket key = Inr ((None, None), d) \<and>
            GetCached now d bucket key = Inr (([], None), d)) \<and>
         (item \<noteq> [] \<and> expire = 0 \<longrightarrow>
            GetCachedBytes now d bucket key =
              Inr ((None, Some (errors_New ''Invalid Key'')), d') \<and>
            GetCached now d bucket key = Inr (([], Some (errors_New ''Invalid Key'')), d')) \<and>
         (item \<noteq> [] \<and> 0 < expire \<and> expire < now \<longrightarrow>
            GetCachedBytes now d bucket key =
              Inr ((None, Some (errors_New ''Key Expired'')), d') \<and>
            GetCached now d bucket key = Inr (([], Some (errors_New ''Key Expired'')), d')) \<and>
         (item \<noteq> [] \<and> (expire < 0 \<or> now \<le> expire \<and> expire \<noteq> 0) \<longrightarrow>
            GetCachedBytes now d bucket key = Inr ((v, None), d) \<and>
            GetCached now d bucket key = Inr ((string_of v, None), d)) \<and>
         Has d' bucket key = Inr False \<and> GetBytes d' bucket key = Inr (None, None)"
proof -
  have empty: "GetCachedBytes now d bucket key = Inr ((None, None), d)" if "item = []"
    using assms(1,2) that by (simp add: GetCachedBytes_def len_def)
  note full = GetCachedBytes_decoded [OF assms(1,2) _ assms(3,4), of now]
  have invalid: "GetCachedBytes now d bucket key =
      Inr ((None, Some (errors_New ''Invalid Key'')), d')" if "item \<noteq> []" "expire = 0"
    using full [OF that(1)] that(2) by simp
  have expired: "GetCachedBytes now d bucket key =
      Inr ((None, Some (errors_New ''Key Expired'')), d')"
    if "item \<noteq> []" "0 < expire" "expire < now"
    using full [OF that(1)] that(2,3) by simp
  have hit: "GetCachedBytes now d bucket key = Inr ((v, None), d)"
    if "item \<noteq> []" "expire < 0 \<or> now \<le> expire \<and> expire \<noteq> 0"
    using full [OF that(1)] that(2) by blast
  have gone: "Has d' bucket key = Inr False" "GetBytes d' bucket key = Inr (None, None)"
    unfolding assms(4)
    by (simp_all add: Has_after_Delete GetBytes_def tx_Bucket_commit bolt_Get_Delete)
  show ?thesis
    using empty invalid expired hit gone
    by (auto simp: GetCached_def string_of_def)
qed

text \<open>
  Claim C1 as stated fails: a record whose expiry equals the clock reading is returned
  as a hit, and so is a record with a negative expiry; a stored value of zero length
  decodes to expiry 0 and is neither deleted nor reported.
\<close>

theorem GetCachedBytes_hit_at_expiry_instant:
  "fst (ParseCacheItem ''1700000000|abc'') = 1700000000 \<and>
   GetCachedBytes 1700000000 cache_example ''cache'' ''now'' =
     Inr ((Some ''abc'', None), cache_example) \<and>
   fst (ParseCacheItem ''-700000000|neg'') = - 700000000 \<and>
   GetCachedBytes 1700000000 cache_example ''cache'' ''minus'' =
     Inr ((Some ''neg'', None), cache_example) \<and>
   fst (ParseCacheItem []) = 0 \<and>
   GetCachedBytes 1700000000 cache_example ''cache'' ''empty'' =
     Inr ((None, None), cache_example)"
  by (simp add: GetCachedBytes_def example_defs store_eval codec_eval)

theorem GetCachedBytes_trichotomy_witness:
  "GetCachedBytes 1700000000 cache_example ''cache'' ''zero'' =
     Inr ((None, Some (errors_New ''Invalid Key'')),
          commit cache_example ''cache'' (bolt_Delete ''zero'' cache_bucket)
            [OpDelete ''cache'' ''zero'']) \<and>
   GetCached 1700000000 cache_example ''cache'' ''zero'' =
     Inr (([], Some (errors_New ''Invalid Key'')),
          commit cache_example ''cache'' (bolt_Delete ''zero'' cache_bucket)
            [OpDelete ''cache'' ''zero'']) \<and>
   Has (commit cache_example ''cache'' (bolt_Delete ''zero'' cache_bucket)
          [OpDelete ''cache'' ''zero'']) ''cache'' ''zero'' = Inr False \<and>
   GetCachedBytes 1700000000 cache_example ''cache'' ''old'' =
     Inr ((None, Some (errors_New ''Key Expired'')),
          commit cache_example ''cache'' (bolt_Delete ''old'' cache_bucket)
            [OpDelete ''cache'' ''old'']) \<and>
   GetCached 1700000000 cache_example ''cache'' ''old'' =
     Inr (([], Some (errors_New ''Key Expired'')),
          commit cache_example ''cache'' (bolt_Delete ''old'' cache_bucket)
            [OpDelete ''cache'' ''old'']) \<and>
   GetCachedBytes 1700000000 cache_example ''cache'' ''fresh'' =
     Inr ((Some ''new'', None), cache_example) \<and>
   GetCached 1700000000 cache_example ''cache'' ''fresh'' =
     Inr ((''new'', None), cache_example) \<and>
   GetCachedBytes 1700000000 cache_example ''cache'' ''now'' =
     Inr ((Some ''abc'', None), cache_example) \<and>
   GetCached 1700000000 cache_example ''cache'' ''now'' =
     Inr ((''abc'', None), cache_example) \<and>
   GetCachedBytes 1700000000 cache_example ''cache'' ''empty'' =
     Inr ((None, None), cache_example) \<and>
   GetCached 1700000000 cache_example ''cache'' ''empty'' =
     Inr (([], None), cache_example)"
proof -
  have b: "tx_Bucket cache_example ''cache'' = Some cache_bucket"
    by (simp add: example_defs tx_Bucket_def)
  have zero: "bolt_Get cache_bucket ''zero'' = Some ''0000000000|x''"
    "ParseCacheItem ''0000000000|x'' = (0, Some ''x'')"
    by (simp_all add: example_defs store_eval codec_eval)
  have old: "bolt_Get cache_bucket ''old'' = Some ''1600000000|abc''"
    "ParseCacheItem ''1600000000|abc'' = (1600000000, Some ''abc'')"
    by (simp_all add: example_defs store_eval codec_eval)
  have fresh: "bolt_Get cache_bucket ''fresh'' = Some ''1800000000|new''"
    "ParseCacheItem ''1800000000|new'' = (1800000000, Some ''new'')"
    by (simp_all add: example_defs store_eval codec_eval)
  have now: "bolt_Get cache_bucket ''now'' = Some ''1700000000|abc''"
    "ParseCacheItem ''1700000000|abc'' = (1700000000, Some ''abc'')"
    by (simp_all add: example_defs store_eval codec_eval)
  have empty: "bolt_Get cache_bucket ''empty'' = Some []"
    "ParseCacheItem [] = (0, None)"
    by (simp_all add: example_defs store_eval codec_eval)
  show ?thesis
    using GetCachedBytes_trichotomy [OF b zero refl, of 1700000000]
      GetCachedBytes_trichotomy [OF b old refl, of 1700000000]
      GetCachedBytes_trichotomy [OF b fresh refl, of 1700000000]
      GetCachedBytes_trichotomy [OF b now refl, of 1700000000]
      GetCachedBytes_trichotomy [OF b empty refl, of 1700000000]
    by (simp add: string_of_def)
qed

text \<open>
  Claim C4, amended. On an existing bucket, for a key that is absent or holds a
  zero-length value, \<open>Get\<close> returns the empty string and a \<open>nil\<close> error, and \<open>GetCached\<close>
  returns the empty payload and a \<open>nil\<close> error and leaves the state as it was: the two
  cases are not told apart and no error is reported.
\<close>

theorem Get_absent_no_error:
  assumes "tx_Bucket d bucket = Some b"
    and "bolt_Get b key = None \<or> bolt_Get b key = Some []"
  shows "Get d bucket key = Inr ([], None) \<and>
         GetCached now d bucket key = Inr (([], None), d)"
  using assms
  by (auto simp: Get_def GetBytes_def GetCached_def GetCachedBytes_def string_of_def len_def)

theorem Get_absent_no_error_witness:
  "Get cache_example ''cache'' ''absent'' = Inr ([], None) \<and>
   GetCached 1700000000 cache_example ''cache'' ''absent'' = Inr (([], None), cache_example) \<and>
   Get cache_example ''cache'' ''empty'' = Inr ([], None) \<and>
   GetCached 1700000000 cache_example ''cache'' ''empty'' = Inr (([], None), cache_example)"
proof -
  have b: "tx_Bucket cache_example ''cache'' = Some cache_bucket"
    by (simp add: example_defs tx_Bucket_def)
  have absent: "bolt_Get cache_bucket ''absent'' = None \<or> bolt_Get cache_bucket ''absent'' = Some []"
    by (simp add: example_defs store_eval)
  have empty: "bolt_Get cache_bucket ''empty'' = None \<or> bolt_Get cache_bucket ''empty'' = Some []"
    by (simp add: example_defs store_eval)
  show ?thesis
    using Get_absent_no_error [OF b absent, of 1700000000]
      Get_absent_no_error [OF b empty, of 1700000000]
    by simp
qed

text \<open>
  Claim C4 as stated fails: for an absent key both \<open>Get\<close> and \<open>GetCached\<close> return a
  \<open>nil\<close> error.
\<close>

theorem Get_absent_returns_no_NotFound:
  "Get cache_example ''cache'' ''absent'' = Inr ([], None) \<and>
   GetCached 1700000000 cache_example ''cache'' ''absent'' = Inr (([], None), cache_example)"
  by (simp add: Get_def GetBytes_def GetCached_def GetCachedBytes_def example_defs store_eval)

section \<open>Batch deletion\<close>

lemma BatchDelete_loop_Some:
  "BatchDelete_loop (Some b) keys = Inr (Some (filter (\<lambda>(k, v). k \<notin> set keys) b))"
proof (induction keys arbitrary: b)
  case Nil
  then show ?case by simp
next
  case (Cons key keys)
  have "filter (\<lambda>(k, v). k \<notin> set keys) (bolt_Delete key b)
      = filter (\<lambda>(k, v). k \<notin> set (key # keys)) b"
    by (induction b) (auto simp: bolt_Delete_def)
  with Cons.IH [of "bolt_Delete key b"] show ?case by simp
qed

lemma BatchDelete_loop_None:
  "BatchDelete_loop None keys = (if keys = [] then Inr None else Inl NilPointerDereference)"
  by (cases keys) simp_all

lemma BatchDelete_Some:
  "tx_Bucket d bucket = Some b \<Longrightarrow>
   BatchDelete d bucket keys =
     Inr (None, commit d bucket (filter (\<lambda>(k, v). k \<notin> set keys) b) (map (OpDelete bucket) keys))"
  by (simp add: BatchDelete_def BatchDelete_loop_Some)

text \<open>
  Claim C7. After a call of \<open>BatchDelete\<close> that returned, a second call with the same
  bucket and keys returns with no error and leaves the buckets exactly as the first call
  left them.
\<close>

theorem BatchDelete_idempotent:
  assumes "BatchDelete d bucket keys = Inr (err1, d1)"
  shows "\<exists>d2. BatchDelete d1 bucket keys = Inr (None, d2) \<and> buckets d2 = buckets d1"
proof (cases "tx_Bucket d bucket")
  case None
  with assms have keys: "keys = []" and d1: "d1 = d\<lparr>txlog := txlog d @ [map (OpDelete bucket) keys]\<rparr>"
    by (auto simp: BatchDelete_def BatchDelete_loop_None split: if_splits)
  have "tx_Bucket d1 bucket = None" using None by (simp add: d1 tx_Bucket_def)
  then show ?thesis using keys by (simp add: BatchDelete_def)
next
  case (Some b)
  define b1 where "b1 = filter (\<lambda>(k, v). k \<notin> set keys) b"
  have d1: "d1 = commit d bucket b1 (map (OpDelete bucket) keys)"
    using assms Some by (simp add: BatchDelete_Some b1_def)
  have "tx_Bucket d1 bucket = Some b1" by (simp add: d1 tx_Bucket_commit)
  then have "BatchDelete d1 bucket keys =
      Inr (None, commit d1 bucket (filter (\<lambda>(k, v). k \<notin> set keys) b1) (map (OpDelete bucket) keys))"
    by (rule BatchDelete_Some)
  moreover have "filter (\<lambda>(k, v). k \<notin> set keys) b1 = b1" by (simp add: b1_def)
  moreover have "buckets (commit d1 bucket b1 (map (OpDelete bucket) keys)) = buckets d1"
    by (simp add: d1 commit_def)
  ultimately show ?thesis by simp
qed

theorem BatchDelete_idempotent_witness:
  "\<exists>d1 d2. BatchDelete cache_example ''cache'' [''old'', ''zero'', ''absent''] = Inr (None, d1) \<and>
     BatchDelete d1 ''cache'' [''old'', ''zero'', ''absent''] = Inr (None, d2) \<and>
     buckets d2 = buckets d1 \<and>
     buckets d1 =
       [(''cache'',
         [(''empty'', []),
          (''fresh'', ''1800000000|new''),
          (''minus'', ''-700000000|neg''),
          (''now'', ''1700000000|abc''),
          (''short'', ''12345'')])]"
proof -
  have b: "tx_Bucket cache_example ''cache'' = Some cache_bucket"
    by (simp add: example_defs tx_Bucket_def)
  note first = BatchDelete_Some [OF b, of "[''old'', ''zero'', ''absent'']"]
  have "buckets (commit cache_example ''cache''
          (filter (\<lambda>(k, v). k \<notin> set [''old'', ''zero'', ''absent'']) cache_bucket)
          (map (OpDelete ''cache'') [''old'', ''zero'', ''absent''])) =
       [(''cache'',
         [(''empty'', []),
          (''fresh'', ''1800000000|new''),
          (''minus'', ''-700000000|neg''),
          (''now'', ''1700000000|abc''),
          (''short'', ''12345'')])]"
    by (simp add: example_defs commit_def)
  with first BatchDelete_idempotent [OF first] show ?thesis by blast
qed

section \<open>Writing a cached record\<close>

lemma Itoa_ten_digits:
  assumes "10 ^ 9 \<le> e" "e < 10 ^ 10"
  shows "length (Itoa e) = 10" "list_all is_digit (Itoa e)" "int (decimal (Itoa e)) = e"
    "ParseInt (Itoa e) = (e, None)"
proof -
  have pos: "0 \<le> e" using assms(1) by simp
  have "nat e < 10 ^ 10" "10 ^ (10 - 1) \<le> nat e"
    using assms by (simp_all add: nat_less_iff le_nat_iff)
  then have "length (digits (nat e)) = 10"
    by (intro length_digits) simp_all
  then show len: "length (Itoa e) = 10" using pos by (simp add: Itoa_def)
  show dig: "list_all is_digit (Itoa e)"
    using pos by (simp add: Itoa_def digits_all_digit)
  have "e < 10 ^ 18" using assms(2) by simp
  with pos show p: "ParseInt (Itoa e) = (e, None)" by (rule ParseInt_Itoa)
  have "Itoa e \<noteq> []" using len by auto
  then have "ParseInt (Itoa e) = (int (decimal (Itoa e)), None)"
    using dig len by (intro ParseInt_decimal) simp_all
  with p show "int (decimal (Itoa e)) = e" by simp
qed

lemma ParseCacheItem_encoded:
  assumes "10 ^ 9 \<le> e" "e < 10 ^ 10"
  shows "ParseCacheItem (Itoa e @ c # v) = (e, Some v)"
  using Itoa_ten_digits(1,4) [OF assms] by (simp add: ParseCacheItem_def)

lemma SetCachedBytes_success:
  assumes "SetCachedBytes now d bucket seconds key val = Inr (None, d')"
  shows "\<exists>b. tx_Bucket d bucket = Some b \<and>
     d' = commit d bucket (upsert key (Itoa (now + seconds) @ ''|'' @ val) b)
            [OpPut bucket key (Itoa (now + seconds) @ ''|'' @ val)]"
  using assms
  by (auto simp: SetCachedBytes_def NowPlusSecondsInt_def bolt_Put_def Let_def
      split: option.splits if_splits)

lemma GetBytes_after_SetCachedBytes:
  assumes "SetCachedBytes now d bucket seconds key val = Inr (None, d')"
  shows "tx_Bucket d' bucket \<noteq> None"
    and "GetBytes d' bucket key = Inr (Some (Itoa (now + seconds) @ ''|'' @ val), None)"
  using SetCachedBytes_success [OF assms]
  by (auto simp: GetBytes_def tx_Bucket_commit bolt_Get_def map_of_upsert)

lemma SetCachedBytes_succeeds:
  assumes "tx_Bucket d bucket = Some b" and "key \<noteq> []" and "length key \<le> MaxKeySize"
    and "length (Itoa (now + seconds)) + 1 + length val \<le> MaxValueSize"
  shows "SetCachedBytes now d bucket seconds key val =
     Inr (None, commit d bucket (upsert key (Itoa (now + seconds) @ ''|'' @ val) b)
                  [OpPut bucket key (Itoa (now + seconds) @ ''|'' @ val)])"
  using assms
  by (simp add: SetCachedBytes_def NowPlusSecondsInt_def bolt_Put_def Let_def)

lemma stored_encoding:
  assumes "10 ^ 9 \<le> now + seconds" and "now + seconds < 10 ^ 10"
    and "SetCachedBytes now d bucket seconds key payload = Inr (None, d')"
  shows "\<exists>item. GetBytes d' bucket key = Inr (Some item, None) \<and>
     item = Itoa (now + seconds) @ ''|'' @ payload \<and>
     length (Itoa (now + seconds)) = 10 \<and>
     list_all is_digit (take 10 item) \<and>
     int (decimal (take 10 item)) = now + seconds \<and>
     item ! 10 = CHR ''|'' \<and>
     drop 11 item = payload \<and>
     11 \<le> length item"
proof -
  note ten = Itoa_ten_digits [OF assms(1,2)]
  have "GetBytes d' bucket key = Inr (Some (Itoa (now + seconds) @ ''|'' @ payload), None)"
    using assms(3) by (rule GetBytes_after_SetCachedBytes)
  then show ?thesis using ten by (simp add: nth_append)
qed

text \<open>
  Claim C3, amended. Let \<open>now + seconds\<close> have exactly ten decimal digits
  (\<open>10 ^ 9 \<le> now + seconds < 10 ^ 10\<close>), let the bucket exist and let the engine accept
  the write: the key is not blank and has at most \<open>MaxKeySize\<close> bytes, and the payload
  with its 11 bytes of header has at most \<open>MaxValueSize\<close> bytes. Then \<open>SetCachedBytes\<close>
  returns no error, and the value it has stored under the key is the ten digits of
  \<open>now + seconds\<close>, as \<open>strconv.Itoa\<close> writes them, then the separator \<open>|\<close>, then the
  payload; so it has at least 11 bytes and its first 10 bytes are digits.
\<close>

theorem SetCachedBytes_encoding:
  assumes "10 ^ 9 \<le> now + seconds" and "now + seconds < 10 ^ 10"
    and "tx_Bucket d bucket = Some b"
    and "key \<noteq> []" and "length key \<le> MaxKeySize"
    and "length payload + 11 \<le> MaxValueSize"
  shows "\<exists>d' item. SetCachedBytes now d bucket seconds key payload = Inr (None, d') \<and>
     GetBytes d' bucket key = Inr (Some item, None) \<and>
     item = Itoa (now + seconds) @ ''|'' @ payload \<and>
     length (Itoa (now + seconds)) = 10 \<and>
     list_all is_digit (take 10 item) \<and>
     int (decimal (take 10 item)) = now + seconds \<and>
     item ! 10 = CHR ''|'' \<and>
     drop 11 item = payload \<and>
     11 \<le> length item"
proof -
  have "length (Itoa (now + seconds)) = 10"
    using assms(1,2) by (rule Itoa_ten_digits(1))
  then have "length (Itoa (now + seconds)) + 1 + length payload \<le> MaxValueSize"
    using assms(6) by simp
  with assms(3,4,5) have set: "SetCachedBytes now d bucket seconds key payload =
      Inr (None, commit d bucket (upsert key (Itoa (now + seconds) @ ''|'' @ payload) b)
                   [OpPut bucket key (Itoa (now + seconds) @ ''|'' @ payload)])"
    by (rule SetCachedBytes_succeeds)
  from stored_encoding [OF assms(1,2) set] set show ?thesis by blast
qed

theorem SetCachedBytes_encoding_witness:
  "\<exists>d' item. SetCachedBytes 1700000000 empty_cache ''cache'' 3600 ''k'' ''abc'' = Inr (None, d') \<and>
     GetBytes d' ''cache'' ''k'' = Inr (Some item, None) \<and>
     item = ''1700003600|abc'' \<and>
     list_all is_digit (take 10 item) \<and>
     int (decimal (take 10 item)) = 1700003600 \<and>
     item ! 10 = CHR ''|'' \<and>
     drop 11 item = ''abc'' \<and>
     11 \<le> length item"
proof -
  have r: "(10::int) ^ 9 \<le> 1700000000 + 3600" "(1700000000::int) + 3600 < 10 ^ 10"
    by simp_all
  have b: "tx_Bucket empty_cache ''cache'' = Some []"
    by (simp add: example_defs tx_Bucket_def)
  have k: "''k'' \<noteq> []" "length ''k'' \<le> MaxKeySize" "length ''abc'' + 11 \<le> MaxValueSize"
    by (simp_all add: MaxKeySize_def MaxValueSize_def)
  have i: "Itoa (1700000000 + 3600) @ ''|'' @ ''abc'' = ''1700003600|abc''"
    by (simp add: Itoa_def digits.simps digit_char_def)
  from SetCachedBytes_encoding [OF r b k] obtain d' item where
    set: "SetCachedBytes 1700000000 empty_cache ''cache'' 3600 ''k'' ''abc'' = Inr (None, d')"
    and get: "GetBytes d' ''cache'' ''k'' = Inr (Some item, None)"
    and item: "item = ''1700003600|abc''"
    and dig: "list_all is_digit (take 10 item)"
    and dec: "int (decimal (take 10 item)) = 1700000000 + 3600"
    and sep: "item ! 10 = CHR ''|''"
    and pay: "drop 11 item = ''abc''"
    and len: "11 \<le> length item"
    unfolding i by blast
  from dec have "int (decimal (take 10 item)) = 1700003600" by simp
  with set get item dig sep pay len show ?thesis by blast
qed

text \<open>
  Claim C3 as stated fails: \<open>strconv.Itoa\<close> does not pad. An expiry of nine digits gives
  a stored value of fewer than 11 bytes when the payload is empty, and an expiry of
  eleven digits puts a digit where the separator is read. With a blank key the engine
  rejects the write and nothing is stored.
\<close>

theorem SetCachedBytes_not_ten_digits:
  "SetCachedBytes 1700000000 empty_cache ''cache'' (- 1000000000) ''k'' [] =
     Inr (None, \<lparr>buckets = [(''cache'', [(''k'', ''700000000|'')])],
                 txlog = [[OpPut ''cache'' ''k'' ''700000000|'']]\<rparr>) \<and>
   length ''700000000|'' < 11 \<and>
   SetCachedBytes 1700000000 empty_cache ''cache'' 8300000000 ''k'' ''abc'' =
     Inr (None, \<lparr>buckets = [(''cache'', [(''k'', ''10000000000|abc'')])],
                 txlog = [[OpPut ''cache'' ''k'' ''10000000000|abc'']]\<rparr>) \<and>
   ''10000000000|abc'' ! 10 \<noteq> CHR ''|'' \<and>
   drop 11 ''10000000000|abc'' \<noteq> ''abc'' \<and>
   SetCachedBytes 1700000000 empty_cache ''cache'' 3600 [] ''abc'' =
     Inr (Some ErrKeyRequired, empty_cache)"
  by (simp add: SetCachedBytes_def NowPlusSecondsInt_def Itoa_def digits.simps digit_char_def
      Let_def example_defs store_eval)

lemma GetCached_after_SetCached:
  assumes "10 ^ 9 \<le> t0 + ttl" and "t0 + ttl < 10 ^ 10"
    and "SetCached t0 d bucket ttl key v = Inr (None, d1)"
  shows "(t1 < t0 + ttl \<longrightarrow> GetCached t1 d1 bucket key = Inr ((v, None), d1)) \<and>
         (t0 + ttl < t1 \<longrightarrow>
            (\<exists>d2. GetCached t1 d1 bucket key = Inr (([], Some (errors_New ''Key Expired'')), d2) \<and>
                  Has d2 bucket key = Inr False \<and>
                  GetBytes d2 bucket key = Inr (None, None)))"
proof -
  define item where "item = Itoa (t0 + ttl) @ ''|'' @ v"
  have set: "SetCachedBytes t0 d bucket ttl key v = Inr (None, d1)"
    using assms(3) by (simp add: SetCached_def)
  obtain b where b: "tx_Bucket d1 bucket = Some b" and get: "bolt_Get b key = Some item"
    using GetBytes_after_SetCachedBytes [OF set]
    by (auto simp: GetBytes_def item_def split: option.splits)
  have ne: "item \<noteq> []" by (simp add: item_def)
  have parse: "ParseCacheItem item = (t0 + ttl, Some v)"
    using ParseCacheItem_encoded [OF assms(1,2)] by (simp add: item_def)
  have pos: "0 < t0 + ttl" using assms(1) by simp
  note tri = GetCachedBytes_decoded [OF b get ne parse refl, of t1]
  show ?thesis
  proof (intro conjI impI)
    assume "t1 < t0 + ttl"
    with tri pos have "GetCachedBytes t1 d1 bucket key = Inr ((Some v, None), d1)" by simp
    then show "GetCached t1 d1 bucket key = Inr ((v, None), d1)"
      by (simp add: GetCached_def string_of_def)
  next
    assume "t0 + ttl < t1"
    with tri pos have "GetCachedBytes t1 d1 bucket key =
        Inr ((None, Some (errors_New ''Key Expired'')),
             commit d1 bucket (bolt_Delete key b) [OpDelete bucket key])" by simp
    then have "GetCached t1 d1 bucket key =
        Inr (([], Some (errors_New ''Key Expired'')),
             commit d1 bucket (bolt_Delete key b) [OpDelete bucket key])"
      by (simp add: GetCached_def string_of_def)
    with tri show "\<exists>d2. GetCached t1 d1 bucket key =
          Inr (([], Some (errors_New ''Key Expired'')), d2) \<and>
        Has d2 bucket key = Inr False \<and> GetBytes d2 bucket key = Inr (None, None)"
      by blast
  qed
qed

text \<open>
  Claim C2, amended. Let \<open>ttl > 0\<close> with \<open>t0 + ttl\<close> of exactly ten decimal digits, let the
  bucket exist and let the engine accept the write: the key is not blank and has at most
  \<open>MaxKeySize\<close> bytes, and the value with its 11 bytes of header has at most
  \<open>MaxValueSize\<close> bytes. Then \<open>SetCached\<close> at clock reading \<open>t0\<close> returns no error, and
  after it \<open>GetCached\<close> at any clock reading \<open>t1 < t0 + ttl\<close> returns the value with no
  error and changes nothing, and at any clock reading \<open>t1 > t0 + ttl\<close> reports \<open>Key Expired\<close>
  and leaves the key deleted.
\<close>

theorem SetCached_then_GetCached:
  assumes "0 < ttl" and "10 ^ 9 \<le> t0 + ttl" and "t0 + ttl < 10 ^ 10"
    and "tx_Bucket d bucket = Some b"
    and "key \<noteq> []" and "length key \<le> MaxKeySize"
    and "length v + 11 \<le> MaxValueSize"
  shows "\<exists>d1. SetCached t0 d bucket ttl key v = Inr (None, d1) \<and>
     (\<forall>t1. t1 < t0 + ttl \<longrightarrow> GetCached t1 d1 bucket key = Inr ((v, None), d1)) \<and>
     (\<forall>t1. t0 + ttl < t1 \<longrightarrow>
        (\<exists>d2. GetCached t1 d1 bucket key = Inr (([], Some (errors_New ''Key Expired'')), d2) \<and>
              Has d2 bucket key = Inr False \<and>
              GetBytes d2 bucket key = Inr (None, None)))"
proof -
  define d1 where "d1 = commit d bucket (upsert key (Itoa (t0 + ttl) @ ''|'' @ v) b)
      [OpPut bucket key (Itoa (t0 + ttl) @ ''|'' @ v)]"
  have "length (Itoa (t0 + ttl)) = 10"
    using assms(2,3) by (rule Itoa_ten_digits(1))
  then have "length (Itoa (t0 + ttl)) + 1 + length v \<le> MaxValueSize"
    using assms(7) by simp
  with assms(4,5,6) have "SetCachedBytes t0 d bucket ttl key v = Inr (None, d1)"
    unfolding d1_def by (rule SetCachedBytes_succeeds)
  then have set: "SetCached t0 d bucket ttl key v = Inr (None, d1)"
    by (simp add: SetCached_def)
  from GetCached_after_SetCached [OF assms(2,3) set] set show ?thesis by blast
qed

theorem SetCached_then_GetCached_witness:
  "\<exists>d1. SetCached 1700000000 empty_cache ''cache'' 3600 ''k'' ''abc'' = Inr (None, d1) \<and>
     GetCached 1700000000 d1 ''cache'' ''k'' = Inr ((''abc'', None), d1) \<and>
     GetCached 1700003599 d1 ''cache'' ''k'' = Inr ((''abc'', None), d1) \<and>
     (\<exists>d2. GetCached 1700003601 d1 ''cache'' ''k'' =
         Inr (([], Some (errors_New ''Key Expired'')), d2) \<and>
       Has d2 ''cache'' ''k'' = Inr False \<and>
       GetBytes d2 ''cache'' ''k'' = Inr (None, None))"
proof -
  have r: "(0::int) < 3600" "(10::int) ^ 9 \<le> 1700000000 + 3600"
    "(1700000000::int) + 3600 < 10 ^ 10"
    by simp_all
  have b: "tx_Bucket empty_cache ''cache'' = Some []"
    by (simp add: example_defs tx_Bucket_def)
  have k: "''k'' \<noteq> []" "length ''k'' \<le> MaxKeySize" "length ''abc'' + 11 \<le> MaxValueSize"
    by (simp_all add: MaxKeySize_def MaxValueSize_def)
  from SetCached_then_GetCached [OF r b k] obtain d1 where
    set: "SetCached 1700000000 empty_cache ''cache'' 3600 ''k'' ''abc'' = Inr (None, d1)"
    and before: "\<forall>t1. t1 < 1700000000 + 3600 \<longrightarrow>
      GetCached t1 d1 ''cache'' ''k'' = Inr ((''abc'', None), d1)"
    and after: "\<forall>t1. 1700000000 + 3600 < t1 \<longrightarrow>
      (\<exists>d2. GetCached t1 d1 ''cache'' ''k'' = Inr (([], Some (errors_New ''Key Expired'')), d2) \<and>
            Has d2 ''cache'' ''k'' = Inr False \<and>
            GetBytes d2 ''cache'' ''k'' = Inr (None, None))"
    by blast
  have "GetCached 1700000000 d1 ''cache'' ''k'' = Inr ((''abc'', None), d1)"
    using before by simp
  moreover have "GetCached 1700003599 d1 ''cache'' ''k'' = Inr ((''abc'', None), d1)"
    using before by simp
  moreover have "\<exists>d2. GetCached 1700003601 d1 ''cache'' ''k'' =
        Inr (([], Some (errors_New ''Key Expired'')), d2) \<and>
      Has d2 ''cache'' ''k'' = Inr False \<and> GetBytes d2 ''cache'' ''k'' = Inr (None, None)"
    using after by simp
  ultimately show ?thesis using set by blast
qed

text \<open>
  Claim C2 as stated fails: with a ttl so long that the expiry has eleven digits, the
  record reads as expired in the very second it was written; and with a blank key the
  engine rejects the write, so that the read finds nothing.
\<close>

theorem SetCached_eleven_digit_expiry_expired_at_once:
  "SetCached 1700000000 empty_cache ''cache'' 8300000000 ''k'' ''abc'' =
     Inr (None, \<lparr>buckets = [(''cache'', [(''k'', ''10000000000|abc'')])],
                 txlog = [[OpPut ''cache'' ''k'' ''10000000000|abc'']]\<rparr>) \<and>
   GetCached 1700000000 \<lparr>buckets = [(''cache'', [(''k'', ''10000000000|abc'')])],
                 txlog = [[OpPut ''cache'' ''k'' ''10000000000|abc'']]\<rparr> ''cache'' ''k'' =
     Inr (([], Some (errors_New ''Key Expired'')),
          \<lparr>buckets = [(''cache'', [])],
             txlog = [[OpPut ''cache'' ''k'' ''10000000000|abc''], [OpDelete ''cache'' ''k'']]\<rparr>) \<and>
   SetCached 1700000000 empty_cache ''cache'' 3600 [] ''abc'' =
     Inr (Some ErrKeyRequired, empty_cache) \<and>
   GetCached 1700000000 empty_cache ''cache'' [] = Inr (([], None), empty_cache)"
  by (simp add: SetCached_def SetCachedBytes_def GetCached_def GetCachedBytes_def Delete_def
      NowPlusSecondsInt_def Itoa_def digits.simps digit_char_def
      Let_def example_defs store_eval codec_eval)

section \<open>Prefix scans\<close>

lemma prefix_le: "prefix p k \<Longrightarrow> p \<le> k" for p k :: bytes
proof (induction p arbitrary: k)
  case Nil
  then show ?case by simp
next
  case (Cons a p)
  then obtain k' where "k = a # k'" "prefix p k'"
    by (cases k) auto
  with Cons.IH show ?case by simp
qed

lemma no_prefix_above:
  "p \<le> k \<Longrightarrow> \<not> prefix p k \<Longrightarrow> k < k' \<Longrightarrow> \<not> prefix p k'" for p k k' :: bytes
proof (induction p arbitrary: k k')
  case Nil
  then show ?case by simp
next
  case (Cons a p)
  show ?case
  proof
    assume "prefix (a # p) k'"
    then obtain t where k': "k' = a # t" and pt: "prefix p t"
      by (cases k') auto
    from Cons.prems(1) obtain c m where k: "k = c # m"
      by (cases k) auto
    from Cons.prems(1) k have 1: "a < c \<or> a = c \<and> p \<le> m" by simp
    from Cons.prems(3) k k' have 2: "c < a \<or> c = a \<and> m < t" by simp
    from 1 2 have ac: "a = c" and pm: "p \<le> m" and mt: "m < t" by auto
    from Cons.prems(2) k ac have "\<not> prefix p m" by simp
    from Cons.IH [OF pm this mt] pt show False by simp
  qed
qed

lemma filter_prefix_dropWhile:
  "filter (\<lambda>(k, v). prefix p k) (dropWhile (\<lambda>(k, v). k < p) b) = filter (\<lambda>(k, v). prefix p k) b"
  for p :: bytes
proof (induction b)
  case Nil
  then show ?case by simp
next
  case (Cons x b)
  obtain k v where x: "x = (k, v)" by (cases x)
  show ?case using Cons prefix_le [of p k] by (auto simp: x)
qed

lemma Seek_loop_filter:
  assumes "sorted_wrt (<) (map fst c)" and "\<forall>(k, v) \<in> set c. p \<le> k"
  shows "Seek_loop p callback c s = fold (\<lambda>(k, v). callback k v) (filter (\<lambda>(k, v). prefix p k) c) s"
  using assms
proof (induction c arbitrary: s)
  case Nil
  then show ?case by simp
next
  case (Cons x c)
  obtain k v where x: "x = (k, v)" by (cases x)
  show ?case
  proof (cases "prefix p k")
    case True
    with Cons show ?thesis by (simp add: x)
  next
    case False
    have pk: "p \<le> k" using Cons.prems(2) by (simp add: x)
    have "\<not> prefix p k'" if "(k', v') \<in> set c" for k' v'
    proof -
      have "k < k'" using Cons.prems(1) that by (force simp: x)
      with pk False show ?thesis by (rule no_prefix_above)
    qed
    then have "filter (\<lambda>(k, v). prefix p k) c = []"
      by (auto simp: filter_empty_conv)
    with False show ?thesis by (simp add: x)
  qed
qed

lemma bolt_Seek_sorted:
  assumes "bucket_ok b"
  shows "sorted_wrt (<) (map fst (bolt_Seek b p))" and "\<forall>(k, v) \<in> set (bolt_Seek b p). p \<le> k"
proof -
  show "sorted_wrt (<) (map fst (bolt_Seek b p))"
    using assms by (simp add: bucket_ok_def bolt_Seek_def sorted_wrt_map)
  show "\<forall>(k, v) \<in> set (bolt_Seek b p). p \<le> k"
    using assms unfolding bucket_ok_def bolt_Seek_def
  proof (induction b)
    case Nil
    then show ?case by simp
  next
    case (Cons x b)
    obtain k v where x: "x = (k, v)" by (cases x)
    show ?case
    proof (cases "k < p")
      case True
      with Cons show ?thesis by (simp add: x)
    next
      case False
      then have "p \<le> k" by simp
      moreover have "\<forall>(k', v') \<in> set b. k < k'" using Cons.prems by (auto simp: x)
      ultimately show ?thesis using False by (auto simp: x)
    qed
  qed
qed

lemma fold_collect: "fold (\<lambda>(k, v) calls. calls @ [(k, v)]) xs acc = acc @ xs"
  by (induction xs arbitrary: acc) auto

lemma Seek_fold:
  assumes "tx_Bucket d bucket = Some b" and "bucket_ok b"
  shows "Seek d bucket p callback s =
         Inr (None, fold (\<lambda>(k, v). callback k v) (filter (\<lambda>(k, v). prefix p k) b) s)"
proof -
  have "Seek_loop p callback (bolt_Seek b p) s =
        fold (\<lambda>(k, v). callback k v) (filter (\<lambda>(k, v). prefix p k) (bolt_Seek b p)) s"
    using bolt_Seek_sorted [OF assms(2)] by (rule Seek_loop_filter)
  also have "filter (\<lambda>(k, v). prefix p k) (bolt_Seek b p) = filter (\<lambda>(k, v). prefix p k) b"
    by (simp add: bolt_Seek_def filter_prefix_dropWhile)
  finally show ?thesis using assms(1) by (simp add: Seek_def)
qed

text \<open>
  Claim C8. On an existing bucket, whose pairs the engine keeps in ascending key order
  with each key once, \<open>Seek\<close> applies the callback to exactly the pairs whose key has
  the prefix, each once and with the key's value, in the order of the bucket, which is
  ascending in the key; a key without the prefix is never passed to the callback. With a
  callback that records its arguments, the record is the list of those pairs.
\<close>

theorem Seek_visits_prefix_keys:
  assumes "tx_Bucket d bucket = Some b" and "bucket_ok b"
  shows "Seek d bucket p callback s =
           Inr (None, fold (\<lambda>(k, v). callback k v) (filter (\<lambda>(k, v). prefix p k) b) s) \<and>
         Seek d bucket p (\<lambda>k v calls. calls @ [(k, v)]) [] =
           Inr (None, filter (\<lambda>(k, v). prefix p k) b) \<and>
         sorted_wrt (<) (map fst (filter (\<lambda>(k, v). prefix p k) b))"
proof (intro conjI)
  show "Seek d bucket p callback s =
      Inr (None, fold (\<lambda>(k, v). callback k v) (filter (\<lambda>(k, v). prefix p k) b) s)"
    using assms by (rule Seek_fold)
  have "Seek d bucket p (\<lambda>k v calls. calls @ [(k, v)]) [] =
      Inr (None, fold (\<lambda>(k, v). (\<lambda>calls. calls @ [(k, v)])) (filter (\<lambda>(k, v). prefix p k) b) [])"
    using assms by (rule Seek_fold)
  then show "Seek d bucket p (\<lambda>k v calls. calls @ [(k, v)]) [] =
      Inr (None, filter (\<lambda>(k, v). prefix p k) b)"
    by (simp add: fold_collect)
  show "sorted_wrt (<) (map fst (filter (\<lambda>(k, v). prefix p k) b))"
    using assms(2) by (simp add: bucket_ok_def sorted_wrt_map sorted_wrt_filter)
qed

theorem Seek_visits_prefix_keys_witness:
  "Seek users_example ''b'' ''user.'' (\<lambda>k v calls. calls @ [(k, v)]) [] =
     Inr (None, [(''user.1'', ''a''), (''user.2'', ''b'')])"
proof -
  have b: "tx_Bucket users_example ''b'' = Some users_bucket"
    by (simp add: example_defs tx_Bucket_def)
  have ok: "bucket_ok users_bucket"
    by (simp add: example_defs bucket_ok_def less_char_def)
  have "filter (\<lambda>(k, v). prefix ''user.'' k) users_bucket = [(''user.1'', ''a''), (''user.2'', ''b'')]"
    by (simp add: example_defs)
  with Seek_visits_prefix_keys
      [OF b ok, of "''user.''" "\<lambda>k v calls. calls @ [(k, v)]" "[]"]
  show ?thesis by simp
qed

section \<open>The cache sweep, bucket by bucket\<close>

lemma bolt_ForEach_collect:
  assumes "\<And>k v acc. fn k v acc = (None, if P v then acc @ [k] else acc)"
  shows "bolt_ForEach fn b acc = (None, acc @ map fst (filter (\<lambda>(k, v). P v) b))"
proof (induction b arbitrary: acc)
  case Nil
  then show ?case by simp
next
  case (Cons x b)
  obtain k v where x: "x = (k, v)" by (cases x)
  have step: "fn k v acc = (None, if P v then acc @ [k] else acc)" by (rule assms)
  show ?case unfolding x bolt_ForEach.simps step by (simp add: Cons)
qed

lemma bolt_ForEach_CacheCleanup_callback:
  "bolt_ForEach (CacheCleanup_callback now) b toRemove =
     (None, toRemove @ map fst (filter (\<lambda>(k, v). invalidated now v) b))"
  by (rule bolt_ForEach_collect) (simp add: CacheCleanup_callback_def Let_def)

lemma CacheCleanup_bucket_None:
  "tx_Bucket d x = None \<Longrightarrow> CacheCleanup_bucket now x d = Inr d"
  by (simp add: CacheCleanup_bucket_def BucketExists_def)

lemma CacheCleanup_bucket_Some:
  assumes "tx_Bucket d x = Some bx"
  shows "CacheCleanup_bucket now x d =
     Inr (let toRemove = map fst (filter (\<lambda>(k, v). invalidated now v) bx)
          in if toRemove = [] then d
             else commit d x (filter (\<lambda>(k, v). k \<notin> set toRemove) bx)
                    (map (OpDelete x) toRemove))"
  using assms
  by (simp add: CacheCleanup_bucket_def BucketExists_def ForEach_def
      bolt_ForEach_CacheCleanup_callback BatchDelete_Some Let_def)

lemma CacheCleanup_bucket_other:
  "\<exists>d1 new1. CacheCleanup_bucket now x d = Inr d1 \<and> txlog d1 = txlog d @ new1 \<and>
     (\<forall>n. n \<noteq> x \<longrightarrow> tx_Bucket d1 n = tx_Bucket d n) \<and>
     (\<forall>n. n \<noteq> x \<longrightarrow> filter (\<lambda>tx. \<exists>op \<in> set tx. op_bucket op = n) new1 = [])"
proof (cases "tx_Bucket d x")
  case None
  then show ?thesis by (simp add: CacheCleanup_bucket_None)
next
  case (Some bx)
  define toRemove where "toRemove = map fst (filter (\<lambda>(k, v). invalidated now v) bx)"
  show ?thesis
  proof (cases "toRemove = []")
    case True
    then have "CacheCleanup_bucket now x d = Inr d"
      using CacheCleanup_bucket_Some [OF Some, of now] by (simp add: toRemove_def)
    then show ?thesis by simp
  next
    case False
    define d1 where "d1 = commit d x (filter (\<lambda>(k, v). k \<notin> set toRemove) bx)
        (map (OpDelete x) toRemove)"
    have "CacheCleanup_bucket now x d = Inr d1"
      using CacheCleanup_bucket_Some [OF Some, of now] False
      by (simp add: toRemove_def d1_def Let_def)
    moreover have "txlog d1 = txlog d @ [map (OpDelete x) toRemove]"
      by (simp add: d1_def commit_def)
    moreover have "\<forall>n. n \<noteq> x \<longrightarrow> tx_Bucket d1 n = tx_Bucket d n"
      by (simp add: d1_def tx_Bucket_commit)
    moreover have "\<forall>n. n \<noteq> x \<longrightarrow>
        filter (\<lambda>tx. \<exists>op \<in> set tx. op_bucket op = n) [map (OpDelete x) toRemove] = []"
      by auto
    ultimately show ?thesis by blast
  qed
qed

lemma bucket_ok_distinct: "bucket_ok b \<Longrightarrow> distinct (map fst b)"
  by (simp add: bucket_ok_def strict_sorted_iff)

lemma filter_removed_keys:
  assumes "distinct (map fst b)"
  shows "filter (\<lambda>(k, v). k \<notin> set (map fst (filter (\<lambda>(k, v). P v) b))) b
       = filter (\<lambda>(k, v). \<not> P v) b"
proof (rule filter_cong [OF refl])
  fix x assume x: "x \<in> set b"
  obtain k v where kv: "x = (k, v)" by (cases x)
  have "k \<in> set (map fst (filter (\<lambda>(k, v). P v) b)) \<longleftrightarrow> P v"
  proof
    assume "k \<in> set (map fst (filter (\<lambda>(k, v). P v) b))"
    then obtain v' where v': "(k, v') \<in> set b" "P v'" by auto
    from x have "(k, v) \<in> set b" by (simp add: kv)
    with assms v'(1) have "v' = v" by (rule eq_key_imp_eq_value)
    with v'(2) show "P v" by simp
  next
    assume "P v"
    with x show "k \<in> set (map fst (filter (\<lambda>(k, v). P v) b))"
      by (force simp: kv)
  qed
  then show "(case x of (k, v) \<Rightarrow> k \<notin> set (map fst (filter (\<lambda>(k, v). P v) b)))
      = (case x of (k, v) \<Rightarrow> \<not> P v)"
    by (simp add: kv)
qed

lemma CacheCleanup_bucket_self:
  assumes "tx_Bucket d x = Some bx" and "distinct (map fst bx)"
  shows "\<exists>d1. CacheCleanup_bucket now x d = Inr d1 \<and>
     tx_Bucket d1 x = Some (filter (\<lambda>(k, v). \<not> invalidated now v) bx) \<and>
     (\<forall>n. n \<noteq> x \<longrightarrow> tx_Bucket d1 n = tx_Bucket d n) \<and>
     txlog d1 = txlog d @
       (if filter (\<lambda>(k, v). invalidated now v) bx = [] then []
        else [map (OpDelete x) (map fst (filter (\<lambda>(k, v). invalidated now v) bx))])"
proof -
  define toRemove where "toRemove = map fst (filter (\<lambda>(k, v). invalidated now v) bx)"
  have kept: "filter (\<lambda>(k, v). k \<notin> set toRemove) bx = filter (\<lambda>(k, v). \<not> invalidated now v) bx"
    unfolding toRemove_def using assms(2) by (rule filter_removed_keys)
  show ?thesis
  proof (cases "toRemove = []")
    case True
    then have none: "filter (\<lambda>(k, v). invalidated now v) bx = []"
      by (simp add: toRemove_def)
    have "filter (\<lambda>(k, v). \<not> invalidated now v) bx = bx"
      using kept True by simp
    moreover have "CacheCleanup_bucket now x d = Inr d"
      using CacheCleanup_bucket_Some [OF assms(1), of now] none by simp
    ultimately show ?thesis using assms(1) none by simp
  next
    case False
    then have some: "filter (\<lambda>(k, v). invalidated now v) bx \<noteq> []"
      by (simp add: toRemove_def)
    define d1 where "d1 = commit d x (filter (\<lambda>(k, v). k \<notin> set toRemove) bx)
        (map (OpDelete x) toRemove)"
    have "CacheCleanup_bucket now x d = Inr d1"
      using CacheCleanup_bucket_Some [OF assms(1), of now] False
      by (simp add: toRemove_def d1_def Let_def)
    moreover have "tx_Bucket d1 x = Some (filter (\<lambda>(k, v). \<not> invalidated now v) bx)"
      by (simp add: d1_def tx_Bucket_commit kept)
    moreover have "\<forall>n. n \<noteq> x \<longrightarrow> tx_Bucket d1 n = tx_Bucket d n"
      by (simp add: d1_def tx_Bucket_commit)
    moreover have "txlog d1 = txlog d @ [map (OpDelete x) toRemove]"
      by (simp add: d1_def commit_def)
    ultimately show ?thesis using some by (simp add: toRemove_def)
  qed
qed

lemma touches_batch:
  "keys \<noteq> [] \<Longrightarrow>
   filter (\<lambda>tx. \<exists>op \<in> set tx. op_bucket op = name) [map (OpDelete name) keys]
     = [map (OpDelete name) keys]"
  by (cases keys) simp_all

lemma CacheCleanup_run:
  assumes "tx_Bucket d name = Some b" and "distinct (map fst b)"
  shows "\<exists>d' new. CacheCleanup now bs d = Inr d' \<and> txlog d' = txlog d @ new \<and>
     (\<forall>n. n \<notin> set bs \<longrightarrow> tx_Bucket d' n = tx_Bucket d n) \<and>
     (name \<in> set bs \<longrightarrow>
        tx_Bucket d' name = Some (filter (\<lambda>(k, v). \<not> invalidated now v) b) \<and>
        filter (\<lambda>tx. \<exists>op \<in> set tx. op_bucket op = name) new =
          (if filter (\<lambda>(k, v). invalidated now v) b = [] then []
           else [map (OpDelete name) (map fst (filter (\<lambda>(k, v). invalidated now v) b))])) \<and>
     (name \<notin> set bs \<longrightarrow> filter (\<lambda>tx. \<exists>op \<in> set tx. op_bucket op = name) new = [])"
  using assms
proof (induction bs arbitrary: d b)
  case Nil
  then show ?case by simp
next
  case (Cons x bs)
  show ?case
  proof (cases "x = name")
    case True
    define b1 where "b1 = filter (\<lambda>(k, v). \<not> invalidated now v) b"
    define batch where "batch =
      (if filter (\<lambda>(k, v). invalidated now v) b = [] then []
       else [map (OpDelete name) (map fst (filter (\<lambda>(k, v). invalidated now v) b))])"
    obtain d1 where d1: "CacheCleanup_bucket now name d = Inr d1"
      "tx_Bucket d1 name = Some b1"
      "\<forall>n. n \<noteq> name \<longrightarrow> tx_Bucket d1 n = tx_Bucket d n"
      "txlog d1 = txlog d @ batch"
      using CacheCleanup_bucket_self [OF Cons.prems, of now]
      unfolding b1_def batch_def by blast
    have dist1: "distinct (map fst b1)"
      using Cons.prems(2) by (simp add: b1_def distinct_map_filter)
    have none1: "filter (\<lambda>(k, v). invalidated now v) b1 = []"
      by (auto simp: b1_def filter_empty_conv)
    have same1: "filter (\<lambda>(k, v). \<not> invalidated now v) b1 = b1"
      by (auto simp: b1_def filter_id_conv)
    obtain d' new where run: "CacheCleanup now bs d1 = Inr d'" "txlog d' = txlog d1 @ new"
      "\<forall>n. n \<notin> set bs \<longrightarrow> tx_Bucket d' n = tx_Bucket d1 n"
      "name \<in> set bs \<longrightarrow>
         tx_Bucket d' name = Some (filter (\<lambda>(k, v). \<not> invalidated now v) b1) \<and>
         filter (\<lambda>tx. \<exists>op \<in> set tx. op_bucket op = name) new =
           (if filter (\<lambda>(k, v). invalidated now v) b1 = [] then []
            else [map (OpDelete name) (map fst (filter (\<lambda>(k, v). invalidated now v) b1))])"
      "name \<notin> set bs \<longrightarrow> filter (\<lambda>tx. \<exists>op \<in> set tx. op_bucket op = name) new = []"
      using Cons.IH [OF d1(2) dist1] by blast
    have new_none: "filter (\<lambda>tx. \<exists>op \<in> set tx. op_bucket op = name) new = []"
      using run(4,5) none1 by (cases "name \<in> set bs") simp_all
    have bucket': "tx_Bucket d' name = Some b1"
      using run(3,4) d1(2) same1 by (cases "name \<in> set bs") simp_all
    have batch_self: "filter (\<lambda>tx. \<exists>op \<in> set tx. op_bucket op = name) batch = batch"
    proof (cases "filter (\<lambda>(k, v). invalidated now v) b = []")
      case True
      then show ?thesis by (simp add: batch_def)
    next
      case False
      then have "map fst (filter (\<lambda>(k, v). invalidated now v) b) \<noteq> []" by simp
      then have "filter (\<lambda>tx. \<exists>op \<in> set tx. op_bucket op = name)
          [map (OpDelete name) (map fst (filter (\<lambda>(k, v). invalidated now v) b))]
        = [map (OpDelete name) (map fst (filter (\<lambda>(k, v). invalidated now v) b))]"
        by (rule touches_batch)
      with False show ?thesis by (simp only: batch_def if_False)
    qed
    have 1: "CacheCleanup now (x # bs) d = Inr d'"
      using True d1(1) run(1) by simp
    have 2: "txlog d' = txlog d @ (batch @ new)"
      using run(2) d1(4) by simp
    have 3: "\<forall>n. n \<notin> set (x # bs) \<longrightarrow> tx_Bucket d' n = tx_Bucket d n"
      using True run(3) d1(3) by simp
    have 4: "filter (\<lambda>tx. \<exists>op \<in> set tx. op_bucket op = name) (batch @ new) = batch"
      using batch_self new_none by simp
    from 1 2 3 4 bucket' True show ?thesis
      unfolding b1_def batch_def by (intro exI [of _ d'] exI [of _ "batch @ new"]) (simp add: batch_def)
  next
    case False
    obtain d1 new1 where d1: "CacheCleanup_bucket now x d = Inr d1"
      "txlog d1 = txlog d @ new1"
      "\<forall>n. n \<noteq> x \<longrightarrow> tx_Bucket d1 n = tx_Bucket d n"
      "\<forall>n. n \<noteq> x \<longrightarrow> filter (\<lambda>tx. \<exists>op \<in> set tx. op_bucket op = n) new1 = []"
      using CacheCleanup_bucket_other [of now x d] by blast
    have b1: "tx_Bucket d1 name = Some b"
      using d1(3) False Cons.prems(1) by simp
    obtain d' new where run: "CacheCleanup now bs d1 = Inr d'" "txlog d' = txlog d1 @ new"
      "\<forall>n. n \<notin> set bs \<longrightarrow> tx_Bucket d' n = tx_Bucket d1 n"
      "name \<in> set bs \<longrightarrow>
         tx_Bucket d' name = Some (filter (\<lambda>(k, v). \<not> invalidated now v) b) \<and>
         filter (\<lambda>tx. \<exists>op \<in> set tx. op_bucket op = name) new =
           (if filter (\<lambda>(k, v). invalidated now v) b = [] then []
            else [map (OpDelete name) (map fst (filter (\<lambda>(k, v). invalidated now v) b))])"
      "name \<notin> set bs \<longrightarrow> filter (\<lambda>tx. \<exists>op \<in> set tx. op_bucket op = name) new = []"
      using Cons.IH [OF b1 Cons.prems(2)] by blast
    have new1_none: "filter (\<lambda>tx. \<exists>op \<in> set tx. op_bucket op = name) new1 = []"
      using d1(4) False by simp
    have 1: "CacheCleanup now (x # bs) d = Inr d'"
      using d1(1) run(1) by simp
    have 2: "txlog d' = txlog d @ (new1 @ new)"
      using run(2) d1(2) by simp
    have 3: "\<forall>n. n \<notin> set (x # bs) \<longrightarrow> tx_Bucket d' n = tx_Bucket d n"
      using run(3) d1(3) by simp
    have 4: "filter (\<lambda>tx. \<exists>op \<in> set tx. op_bucket op = name) (new1 @ new)
        = filter (\<lambda>tx. \<exists>op \<in> set tx. op_bucket op = name) new"
      using new1_none by simp
    from 1 2 3 4 run(4,5) False show ?thesis
      by (intro exI [of _ d'] exI [of _ "new1 @ new"]) simp
  qed
qed

text \<open>
  Claim C5. Let a cache bucket of \<open>CacheBuckets\<close> hold records that are expired
  (\<open>0 < expiry < now\<close>), of zero expiry or not yet expired, so that no decoded expiry is
  negative. One run of \<open>CacheCleanup\<close> returns, and afterwards the bucket holds exactly
  the pairs whose decoded expiry is neither 0 nor below \<open>now\<close>, unchanged and in their
  order; buckets outside \<open>CacheBuckets\<close> are as before; and among the write transactions
  of the run, the ones on this bucket are a single batch that deletes all the keys found
  by the scan of the whole bucket, or none at all when the scan found no key.
\<close>

theorem CacheCleanup_sweeps:
  assumes "bucket \<in> set CacheBuckets" and "tx_Bucket d bucket = Some b" and "bucket_ok b"
    and "\<forall>(k, v) \<in> set b. 0 \<le> fst (ParseCacheItem v)"
  shows "\<exists>d' new. CacheCleanup now CacheBuckets d = Inr d' \<and>
     tx_Bucket d' bucket =
       Some (filter (\<lambda>(k, v). \<not> (fst (ParseCacheItem v) = 0 \<or> fst (ParseCacheItem v) < now)) b) \<and>
     (\<forall>n. n \<notin> set CacheBuckets \<longrightarrow> tx_Bucket d' n = tx_Bucket d n) \<and>
     txlog d' = txlog d @ new \<and>
     filter (\<lambda>tx. \<exists>op \<in> set tx. op_bucket op = bucket) new =
       (if filter (\<lambda>(k, v). fst (ParseCacheItem v) = 0 \<or> fst (ParseCacheItem v) < now) b = []
        then []
        else [map (OpDelete bucket)
                (map fst (filter (\<lambda>(k, v). fst (ParseCacheItem v) = 0 \<or>
                                           fst (ParseCacheItem v) < now) b))])"
proof -
  have inv: "filter (\<lambda>(k, v). invalidated now v) b =
      filter (\<lambda>(k, v). fst (ParseCacheItem v) = 0 \<or> fst (ParseCacheItem v) < now) b"
    using assms(4) by (intro filter_cong) auto
  have keep: "filter (\<lambda>(k, v). \<not> invalidated now v) b =
      filter (\<lambda>(k, v). \<not> (fst (ParseCacheItem v) = 0 \<or> fst (ParseCacheItem v) < now)) b"
    using assms(4) by (intro filter_cong) auto
  have "distinct (map fst b)" using assms(3) by (rule bucket_ok_distinct)
  from CacheCleanup_run [OF assms(2) this, of now CacheBuckets] assms(1)
  show ?thesis unfolding inv keep by blast
qed

theorem CacheCleanup_sweeps_witness:
  "\<exists>d' new. CacheCleanup 1700000000 [''cache'', ''missing''] sweep_example = Inr d' \<and>
     tx_Bucket d' ''cache'' = Some [(''fresh'', ''1800000000|new''), (''now'', ''1700000000|abc'')] \<and>
     (\<forall>n. n \<notin> set [''cache'', ''missing''] \<longrightarrow> tx_Bucket d' n = tx_Bucket sweep_example n) \<and>
     txlog d' = txlog sweep_example @ new \<and>
     filter (\<lambda>tx. \<exists>op \<in> set tx. op_bucket op = ''cache'') new =
       [[OpDelete ''cache'' ''empty'', OpDelete ''cache'' ''old'',
         OpDelete ''cache'' ''short'', OpDelete ''cache'' ''zero'']]"
proof -
  have b: "tx_Bucket sweep_example ''cache'' = Some sweep_bucket"
    by (simp add: example_defs tx_Bucket_def)
  have ok: "bucket_ok sweep_bucket"
    by (simp add: example_defs bucket_ok_def less_char_def)
  have nonneg: "\<forall>(k, v) \<in> set sweep_bucket. 0 \<le> fst (ParseCacheItem v)"
    by (simp add: example_defs codec_eval)
  have mem: "''cache'' \<in> set [''cache'', ''missing'']" by simp
  have kept: "filter (\<lambda>(k, v). \<not> (fst (ParseCacheItem v) = 0 \<or>
        fst (ParseCacheItem v) < 1700000000)) sweep_bucket =
      [(''fresh'', ''1800000000|new''), (''now'', ''1700000000|abc'')]"
    by (simp add: example_defs codec_eval)
  have gone: "filter (\<lambda>(k, v). fst (ParseCacheItem v) = 0 \<or>
        fst (ParseCacheItem v) < 1700000000) sweep_bucket =
      [(''empty'', []), (''old'', ''1600000000|abc''), (''short'', ''12345''),
       (''zero'', ''0000000000|x'')]"
    by (simp add: example_defs codec_eval)
  from CacheCleanup_sweeps [OF mem b ok nonneg, of 1700000000]
  show ?thesis unfolding kept gone by simp
qed

section \<open>Writes keep a bucket in key order\<close>

lemma SetCachedBytes_keeps_order:
  assumes "tx_Bucket d bucket = Some b" and "bucket_ok b"
    and "SetCachedBytes now d bucket seconds key val = Inr (err, d')"
  shows "\<exists>b'. tx_Bucket d' bucket = Some b' \<and> bucket_ok b'"
  using assms
  by (auto simp: SetCachedBytes_def bolt_Put_def Let_def tx_Bucket_commit bucket_ok_upsert
      split: if_splits)

lemma Delete_keeps_order:
  assumes "tx_Bucket d bucket = Some b" and "bucket_ok b"
    and "Delete d bucket key = Inr (err, d')"
  shows "\<exists>b'. tx_Bucket d' bucket = Some b' \<and> bucket_ok b'"
  using assms by (auto simp: Delete_def tx_Bucket_commit bucket_ok_bolt_Delete)

lemma BatchDelete_keeps_order:
  assumes "tx_Bucket d bucket = Some b" and "bucket_ok b"
    and "BatchDelete d bucket keys = Inr (err, d')"
  shows "\<exists>b'. tx_Bucket d' bucket = Some b' \<and> bucket_ok b'"
  using assms
  by (auto simp: BatchDelete_Some tx_Bucket_commit bucket_ok_def sorted_wrt_map sorted_wrt_filter)

end
